theory Spec2Isabelle
  imports Main
begin

section \<open>Host-language strings and numbers\<close>

text \<open>
  A JavaScript string is a sequence of UTF-16 code units and \<open>length\<close>, \<open>slice\<close> and the
  regular expressions used here (none has the \<open>u\<close> flag) work on code units. The model
  uses \<open>string\<close>, one \<open>char\<close> per code unit, which covers the code units below 256.
  The only code unit of the sources outside that range, U+2014 in the two prefix
  constants, is written as the single character \<open>0x97\<close>, so that lengths are kept.

  Numbers are modelled as \<open>int\<close>: the integral values of the JavaScript number type,
  rendered in decimal as template literals do for integers below \<open>10^21\<close>.
\<close>

definition digitChar :: "nat \<Rightarrow> char" where
  "digitChar d = ''0123456789'' ! (d mod 10)"

function showNat :: "nat \<Rightarrow> string" where
  "showNat n = (if n < 10 then [digitChar n] else showNat (n div 10) @ [digitChar (n mod 10)])"
  by pat_completeness auto
termination
  by (relation "measure id") auto

declare showNat.simps [simp del]

definition numberToString :: "int \<Rightarrow> string" where
  "numberToString i = (if i < 0 then CHR ''-'' # showNat (nat (- i)) else showNat (nat i))"

text \<open>\<open>s.slice(0, e)\<close>: a negative end counts from the end of the string, and the end is
  clamped to the length.\<close>

definition jsSlice0 :: "string \<Rightarrow> int \<Rightarrow> string" where
  "jsSlice0 s e =
     (let len = int (length s);
          to = (if e < 0 then max (len + e) 0 else min e len)
      in take (nat to) s)"

definition startsWith :: "string \<Rightarrow> string \<Rightarrow> bool" where
  "startsWith p s = (take (length p) s = p)"

text \<open>Case folding of the ASCII letters. Under the \<open>i\<close> flag (without \<open>u\<close>) a pattern
  letter matches exactly its two ASCII cases: no code unit from 128 on is identified with
  an ASCII one.\<close>

definition asciiLower :: "char \<Rightarrow> char" where
  "asciiLower c =
     (case map_of (zip ''ABCDEFGHIJKLMNOPQRSTUVWXYZ'' ''abcdefghijklmnopqrstuvwxyz'') c of
        Some l \<Rightarrow> l
      | None \<Rightarrow> c)"

definition startsWithCI :: "string \<Rightarrow> string \<Rightarrow> bool" where
  "startsWithCI p s = (map asciiLower (take (length p) s) = p)"

fun findCI :: "string \<Rightarrow> string \<Rightarrow> nat option" where
  "findCI p [] = (if p = [] then Some 0 else None)"
| "findCI p (c # cs) =
     (if startsWithCI p (c # cs) then Some 0 else map_option Suc (findCI p cs))"

section \<open>Global replacement by a regular expression\<close>

text \<open>
  \<open>text.replace(/re/g, rep)\<close> scans the text from the left. A matcher \<open>m\<close> gives, for the
  rest of the text at the current position, the length of the match of the expression
  there, if there is one (the expressions below have no anchors, so a match depends on
  the rest of the text only, and each of them has at most one way to match at a
  position). A match is replaced by \<open>rep\<close> and the scan goes on after it; after an empty
  match the scan copies one code unit. A replacement text holds no \<open>$\<close> pattern here.
\<close>

function greplace :: "(string \<Rightarrow> nat option) \<Rightarrow> string \<Rightarrow> string \<Rightarrow> string" where
  "greplace m rep [] = (case m [] of Some n \<Rightarrow> rep | None \<Rightarrow> [])"
| "greplace m rep (c # cs) =
     (case m (c # cs) of
        None \<Rightarrow> c # greplace m rep cs
      | Some n \<Rightarrow>
          if n = 0 then rep @ c # greplace m rep cs
          else rep @ greplace m rep (drop n (c # cs)))"
  by pat_completeness auto
termination
  by (relation "measure (\<lambda>(m, rep, s). length s)") auto

text \<open>\<open>/<script[\s\S]*?<\/script>/gi\<close>: \<open><script\<close> in any case, then the shortest text up
  to the first \<open></script>\<close> in any case.\<close>

definition scriptMatch :: "string \<Rightarrow> nat option" where
  "scriptMatch s =
     (if startsWithCI ''<script'' s
      then (case findCI ''</script>'' (drop 7 s) of
              Some k \<Rightarrow> Some (7 + k + 9)
            | None \<Rightarrow> None)
      else None)"

text \<open>\<open>/<[^>]+>/g\<close>: \<open><\<close>, one or more code units other than \<open>>\<close>, then \<open>>\<close>.\<close>

definition tagMatch :: "string \<Rightarrow> nat option" where
  "tagMatch s =
     (case s of
        [] \<Rightarrow> None
      | c # cs \<Rightarrow>
          if c = CHR ''<''
          then (let body = takeWhile (\<lambda>x. x \<noteq> CHR ''>'') cs
                in if body \<noteq> [] \<and> length body < length cs
                   then Some (length body + 2) else None)
          else None)"

text \<open>\<open>/!\[[^\]]*\]\(https?:\/\/[^)]+\)/g\<close>: a markdown image with an http or https
  address.\<close>

definition imageMatch :: "string \<Rightarrow> nat option" where
  "imageMatch s =
     (if startsWith ''!['' s
      then (let r1 = drop 2 s;
                alt = takeWhile (\<lambda>x. x \<noteq> CHR '']'') r1;
                r2 = drop (length alt) r1
            in if startsWith ''](http'' r2
               then (let r3 = drop 6 r2;
                         sl = (if startsWith ''s'' r3 then 1 else 0);
                         r4 = drop sl r3
                     in if startsWith ''://'' r4
                        then (let r5 = drop 3 r4;
                                  url = takeWhile (\<lambda>x. x \<noteq> CHR '')'') r5
                              in if url \<noteq> [] \<and> length url < length r5
                                 then Some (2 + length alt + 6 + sl + 3 + length url + 1)
                                 else None)
                        else None)
               else None)
      else None)"

text \<open>\<open>/data:[^,]+,[\w+/=]+/g\<close>: a data URI; \<open>\w\<close> is \<open>[A-Za-z0-9_]\<close>.\<close>

definition isDataChar :: "char \<Rightarrow> bool" where
  "isDataChar c =
     (c \<in> set ''ABCDEFGHIJKLMNOPQRSTUVWXYZabcdefghijklmnopqrstuvwxyz0123456789_+/='')"

definition dataMatch :: "string \<Rightarrow> nat option" where
  "dataMatch s =
     (if startsWith ''data:'' s
      then (let r1 = drop 5 s;
                mime = takeWhile (\<lambda>x. x \<noteq> CHR '','') r1;
                r2 = drop (length mime) r1
            in if mime \<noteq> [] \<and> r2 \<noteq> []
               then (let payload = takeWhile isDataChar (drop 1 r2)
                     in if payload \<noteq> []
                        then Some (5 + length mime + 1 + length payload)
                        else None)
               else None)
      else None)"

text \<open>\<open>s.includes(p)\<close>: \<open>p\<close> occurs in \<open>s\<close>.\<close>

fun includesStr :: "string \<Rightarrow> string \<Rightarrow> bool" where
  "includesStr p [] = (p = [])"
| "includesStr p (c # cs) = (startsWith p (c # cs) \<or> includesStr p cs)"

text \<open>\<open>re.test(s)\<close> for the expression of a matcher: it matches at some position.\<close>

fun hasMatch :: "(string \<Rightarrow> nat option) \<Rightarrow> string \<Rightarrow> bool" where
  "hasMatch m [] = (case m [] of Some n \<Rightarrow> True | None \<Rightarrow> False)"
| "hasMatch m (c # cs) = (case m (c # cs) of Some n \<Rightarrow> True | None \<Rightarrow> hasMatch m cs)"

text \<open>What may follow a \<open><\<close> that is not the start of a tag: no \<open>>\<close> at all, or a
  \<open>>\<close> at once. \<open>tagFree\<close> says so of every \<open><\<close> of a text.\<close>

definition closesAtOnce :: "string \<Rightarrow> bool" where
  "closesAtOnce r = (CHR ''>'' \<notin> set r \<or> take 1 r = ''>'')"

fun tagFree :: "string \<Rightarrow> bool" where
  "tagFree [] = True"
| "tagFree (c # cs) = ((if c = CHR ''<'' then closesAtOnce cs else True) \<and> tagFree cs)"

section \<open>Tool bridge (bridge.ts): qualified names\<close>

text \<open>\<open>toLowerCase\<close> on the code units below 256: the ASCII capitals and the capitals
  of the Latin-1 block (U+00C0 to U+00DE without U+00D7) move to their small letters.\<close>

definition toLowerCaseChar :: "char \<Rightarrow> char" where
  "toLowerCaseChar c =
     (case map_of (zip
        (''ABCDEFGHIJKLMNOPQRSTUVWXYZ'' @
         [CHR 0xC0, CHR 0xC1, CHR 0xC2, CHR 0xC3, CHR 0xC4, CHR 0xC5, CHR 0xC6, CHR 0xC7,
          CHR 0xC8, CHR 0xC9, CHR 0xCA, CHR 0xCB, CHR 0xCC, CHR 0xCD, CHR 0xCE, CHR 0xCF,
          CHR 0xD0, CHR 0xD1, CHR 0xD2, CHR 0xD3, CHR 0xD4, CHR 0xD5, CHR 0xD6,
          CHR 0xD8, CHR 0xD9, CHR 0xDA, CHR 0xDB, CHR 0xDC, CHR 0xDD, CHR 0xDE])
        (''abcdefghijklmnopqrstuvwxyz'' @
         [CHR 0xE0, CHR 0xE1, CHR 0xE2, CHR 0xE3, CHR 0xE4, CHR 0xE5, CHR 0xE6, CHR 0xE7,
          CHR 0xE8, CHR 0xE9, CHR 0xEA, CHR 0xEB, CHR 0xEC, CHR 0xED, CHR 0xEE, CHR 0xEF,
          CHR 0xF0, CHR 0xF1, CHR 0xF2, CHR 0xF3, CHR 0xF4, CHR 0xF5, CHR 0xF6,
          CHR 0xF8, CHR 0xF9, CHR 0xFA, CHR 0xFB, CHR 0xFC, CHR 0xFD, CHR 0xFE])) c of
        Some l \<Rightarrow> l
      | None \<Rightarrow> c)"

definition toLowerCase :: "string \<Rightarrow> string" where
  "toLowerCase s = map toLowerCaseChar s"

text \<open>The class \<open>[a-z0-9_]\<close>, and the matchers of \<open>/[^a-z0-9_]/g\<close> (one code unit
  outside the class) and \<open>/_+/g\<close> (a run of underscores, as long as it goes).\<close>

definition isNameChar :: "char \<Rightarrow> bool" where
  "isNameChar c = (c \<in> set ''abcdefghijklmnopqrstuvwxyz0123456789_'')"

definition unsafeCharMatch :: "string \<Rightarrow> nat option" where
  "unsafeCharMatch s =
     (case s of [] \<Rightarrow> None | c # cs \<Rightarrow> if isNameChar c then None else Some 1)"

definition underscoreRunMatch :: "string \<Rightarrow> nat option" where
  "underscoreRunMatch s =
     (let run = takeWhile (\<lambda>x. x = CHR ''_'') s
      in if run \<noteq> [] then Some (length run) else None)"

text \<open>\<open>.replace(/^_|_$/g, "")\<close>: without the \<open>m\<close> flag \<open>^\<close> holds at index 0 only and
  \<open>$\<close> at the end only. The scan removes an underscore at index 0 by the first
  alternative, goes on after it, and removes an underscore that is the last code unit by
  the second.\<close>

definition stripEnds :: "string \<Rightarrow> string" where
  "stripEnds s =
     (let s1 = (if startsWith ''_'' s then drop 1 s else s)
      in if s1 \<noteq> [] \<and> last s1 = CHR ''_'' then butlast s1 else s1)"

definition safe :: "string \<Rightarrow> string" where
  "safe s =
     stripEnds
       (greplace underscoreRunMatch ''_''
         (greplace unsafeCharMatch ''_'' (toLowerCase s)))"

definition normalizeToolName :: "string \<Rightarrow> string \<Rightarrow> string" where
  "normalizeToolName serverName toolName =
     ''mcp_'' @ safe serverName @ ''_'' @ safe toolName"

text \<open>A name is normalized when it is over \<open>[a-z0-9_]\<close>, neither starts nor ends with an
  underscore and has no two underscores in a row.\<close>

definition endsWith :: "string \<Rightarrow> string \<Rightarrow> bool" where
  "endsWith p s = (drop (length s - length p) s = p)"

definition isNormalized :: "string \<Rightarrow> bool" where
  "isNormalized s =
     (list_all isNameChar s \<and> \<not> startsWith ''_'' s \<and> \<not> endsWith ''_'' s \<and>
      \<not> includesStr ''__'' s)"

text \<open>No two underscores in a row.\<close>

fun noDouble :: "string \<Rightarrow> bool" where
  "noDouble (a # b # cs) = (\<not> (a = CHR ''_'' \<and> b = CHR ''_'') \<and> noDouble (b # cs))"
| "noDouble cs = True"


text \<open>
  Normalization in the words of the specification, with the class of the characters that
  are kept read as \<open>[a-z0-9]\<close>: lower-case, replace every run of characters outside the
  class (underscores are outside it) by a single underscore, and strip the underscores at
  the start and at the end.
\<close>

definition isAlnum :: "char \<Rightarrow> bool" where
  "isAlnum c = (c \<in> set ''abcdefghijklmnopqrstuvwxyz0123456789'')"

function collapseRuns :: "string \<Rightarrow> string" where
  "collapseRuns [] = []"
| "collapseRuns (c # cs) =
     (if isAlnum c then c # collapseRuns cs
      else CHR ''_'' # collapseRuns (dropWhile (\<lambda>x. \<not> isAlnum x) cs))"
  by pat_completeness auto
termination
  by (relation "measure length") (auto simp: length_dropWhile_le le_imp_less_Suc)

definition stripUnderscores :: "string \<Rightarrow> string" where
  "stripUnderscores s =
     rev (dropWhile (\<lambda>x. x = CHR ''_'') (rev (dropWhile (\<lambda>x. x = CHR ''_'') s)))"

definition safeSpec :: "string \<Rightarrow> string" where
  "safeSpec s = stripUnderscores (collapseRuns (toLowerCase s))"

section \<open>Protocol client (client.ts): the concurrency limiter\<close>

text \<open>
  The program runs on one thread: a piece of code between two \<open>await\<close>s runs without
  interruption, and the pieces of the pending calls interleave in the order the event
  loop picks. Calling the \<open>resolve\<close> of a promise does not run the code that awaits it:
  it queues that continuation behind the jobs that are queued already, and any of those
  may call the client first. The model has one step for each such piece of
  \<open>McpClientWrapper\<close>. A call of \<open>callTool\<close> is named by a number, and so is the
  \<open>resolve\<close> callback it pushes on \<open>callQueue\<close>; \<open>phase\<close> records where each call
  stands. \<open>connect\<close> and \<open>disconnect\<close> are each taken as one step, from the guard to the
  assignments after the \<open>await\<close>.
\<close>

datatype TransportType = Stdio | Http | Sse | Auto

definition CONCURRENCY :: "TransportType \<Rightarrow> int option" where
  "CONCURRENCY = [Stdio \<mapsto> 1, Http \<mapsto> 4, Sse \<mapsto> 2]"

datatype CallError =
    NotConnected  \<comment> \<open>thrown by \<open>ensureConnected\<close>\<close>
  | NullClient    \<comment> \<open>the TypeError of \<open>this.client!.callTool\<close> on \<open>null\<close>\<close>
  | CallFailed    \<comment> \<open>the call of the session was rejected\<close>

datatype CallPhase =
    NotCalled
  | Queued        \<comment> \<open>suspended at line 105, its \<open>resolve\<close> not called yet\<close>
  | Released      \<comment> \<open>its \<open>resolve\<close> was called, its continuation has not run yet\<close>
  | InFlight      \<comment> \<open>suspended at line 110, in the call of the session\<close>
  | Returned
  | Threw CallError

record McpClientWrapper =
  transport :: TransportType
  client :: bool
  pendingCalls :: int
  callQueue :: "nat list"
  phase :: "nat \<Rightarrow> CallPhase"

definition newClient :: "TransportType \<Rightarrow> McpClientWrapper" where
  "newClient t =
     \<lparr>transport = t, client = False, pendingCalls = 0, callQueue = [],
      phase = (\<lambda>c. NotCalled)\<rparr>"

definition maxConcurrency :: "McpClientWrapper \<Rightarrow> int" where
  "maxConcurrency w = (case CONCURRENCY (transport w) of Some n \<Rightarrow> n | None \<Rightarrow> 4)"

text \<open>\<open>connect\<close>, with whether the transport's connect succeeds.\<close>

definition connect :: "bool \<Rightarrow> McpClientWrapper \<Rightarrow> McpClientWrapper" where
  "connect ok w = (if client w then w else if ok then w\<lparr>client := True\<rparr> else w)"

text \<open>\<open>disconnect\<close>: the \<open>finally\<close> block runs whether \<open>close\<close> succeeds or throws (the
  error is then thrown on to the caller, with the same state).\<close>

definition disconnect :: "McpClientWrapper \<Rightarrow> McpClientWrapper" where
  "disconnect w =
     (if \<not> client w then w
      else w\<lparr>client := False, pendingCalls := 0, callQueue := []\<rparr>)"

text \<open>\<open>callTool\<close> up to its first \<open>await\<close>, for the call named \<open>c\<close>.\<close>

definition callTool :: "nat \<Rightarrow> McpClientWrapper \<Rightarrow> McpClientWrapper" where
  "callTool c w =
     (if phase w c \<noteq> NotCalled then w
      else if \<not> client w then w\<lparr>phase := (phase w)(c := Threw NotConnected)\<rparr>
      else if pendingCalls w \<ge> maxConcurrency w
        then w\<lparr>callQueue := callQueue w @ [c], phase := (phase w)(c := Queued)\<rparr>
      else w\<lparr>pendingCalls := pendingCalls w + 1, phase := (phase w)(c := InFlight)\<rparr>)"

text \<open>The \<open>finally\<close> block of \<open>callTool\<close>, for a call that ends with \<open>outcome\<close>.\<close>

definition finallyBlock :: "nat \<Rightarrow> CallPhase \<Rightarrow> McpClientWrapper \<Rightarrow> McpClientWrapper" where
  "finallyBlock c outcome w =
     (let w1 = w\<lparr>pendingCalls := pendingCalls w - 1, phase := (phase w)(c := outcome)\<rparr>
      in case callQueue w1 of
           [] \<Rightarrow> w1
         | next # rest \<Rightarrow> w1\<lparr>callQueue := rest, phase := (phase w1)(next := Released)\<rparr>)"

text \<open>The continuation of a queued call whose \<open>resolve\<close> was called: from line 107.\<close>

definition resume :: "nat \<Rightarrow> McpClientWrapper \<Rightarrow> McpClientWrapper" where
  "resume c w =
     (if phase w c \<noteq> Released then w
      else (let w1 = w\<lparr>pendingCalls := pendingCalls w + 1\<rparr>
            in if client w1 then w1\<lparr>phase := (phase w1)(c := InFlight)\<rparr>
               else finallyBlock c (Threw NullClient) w1))"

text \<open>The call of the session settles for the call \<open>c\<close>, which goes on from line 115.\<close>

definition complete :: "nat \<Rightarrow> bool \<Rightarrow> McpClientWrapper \<Rightarrow> McpClientWrapper" where
  "complete c ok w =
     (if phase w c \<noteq> InFlight then w
      else finallyBlock c (if ok then Returned else Threw CallFailed) w)"

datatype ClientEvent =
    Connect bool
  | Disconnect
  | CallTool nat
  | Resume nat
  | Complete nat bool

fun clientStep :: "McpClientWrapper \<Rightarrow> ClientEvent \<Rightarrow> McpClientWrapper" where
  "clientStep w (Connect ok) = connect ok w"
| "clientStep w Disconnect = disconnect w"
| "clientStep w (CallTool c) = callTool c w"
| "clientStep w (Resume c) = resume c w"
| "clientStep w (Complete c ok) = complete c ok w"

definition clientRun :: "ClientEvent list \<Rightarrow> McpClientWrapper \<Rightarrow> McpClientWrapper" where
  "clientRun es w = foldl clientStep w es"

text \<open>How many of the calls \<open>cs\<close> are in the call of the session.\<close>

definition inFlightCount :: "McpClientWrapper \<Rightarrow> nat list \<Rightarrow> nat" where
  "inFlightCount w cs = length (filter (\<lambda>c. phase w c = InFlight) cs)"

section \<open>Connection manager (McpServerManager)\<close>

datatype ConnectionState = Disconnected | Connecting | Connected | ErrorState | Reconnecting

datatype JsError = JsError (message: string)

record McpToolInfo =
  serverName :: string
  name' :: string
  description :: "string option"

text \<open>
  A managed server. \<open>client'\<close> and \<open>wrapper\<close> say whether \<open>server.client\<close> and the side
  field \<open>_wrapper\<close> hold a client; \<open>connectPromise\<close> holds the number of the promise of
  the pending \<open>doConnect\<close>. The configuration of the server is not read by the operations
  modelled here and is left out.
\<close>

record ManagedServer =
  name :: string
  client' :: bool
  wrapper :: bool
  state :: ConnectionState
  error :: "string option"
  tools :: "McpToolInfo list"
  lastPing :: "nat option"
  connectPromise :: "nat option"

definition setState :: "ManagedServer \<Rightarrow> ConnectionState \<Rightarrow> string option \<Rightarrow> ManagedServer" where
  "setState server st err =
     (case err of
        None \<Rightarrow> server\<lparr>state := st\<rparr>
      | Some e \<Rightarrow> server\<lparr>state := st, error := Some e\<rparr>)"

text \<open>
  \<open>doConnect\<close>, run from its first line to its return or throw. \<open>env attempt\<close> is what
  \<open>client.connect()\<close> followed by \<open>client.listTools()\<close> gives at that attempt: the tools,
  or the error thrown; \<open>now\<close> is the clock. The result holds the effects in their order:
  each connect attempt and each backoff delay in milliseconds. \<open>retries\<close> is a natural
  number: the configuration schema requires an integer that is not negative.
\<close>

datatype Effect = Attempt nat | Delay nat

function doConnectLoop ::
  "(nat \<Rightarrow> JsError + McpToolInfo list) \<Rightarrow> nat \<Rightarrow> nat \<Rightarrow> nat \<Rightarrow> JsError option \<Rightarrow>
   ManagedServer \<Rightarrow> Effect list \<Rightarrow> (JsError + unit) \<times> ManagedServer \<times> Effect list" where
  "doConnectLoop env now retries attempt lastError server effs =
     (if attempt \<le> retries then
        (let server1 = setState server Connecting None
         in case env attempt of
              Inr ts \<Rightarrow>
                (Inr (),
                 setState
                   (server1\<lparr>client' := True, tools := ts, lastPing := Some now,
                            error := None, wrapper := True\<rparr>)
                   Connected None,
                 effs @ [Attempt attempt])
            | Inl err \<Rightarrow>
                if attempt < retries
                then doConnectLoop env now retries (attempt + 1) (Some err) server1
                       (effs @ [Attempt attempt, Delay (1000 * 2 ^ attempt)])
                else doConnectLoop env now retries (attempt + 1) (Some err) server1
                       (effs @ [Attempt attempt]))
      else
        (case lastError of
           Some e \<Rightarrow> (Inl e, setState server ErrorState (Some (message e)), effs)
         | None \<Rightarrow>
             (Inl (JsError (''Failed to connect to \"'' @ name server @ ''\"'')),
              setState server ErrorState None, effs)))"
  by pat_completeness auto
termination
  by (relation "measure (\<lambda>(env, now, retries, attempt, rest). Suc retries - attempt)") auto

declare doConnectLoop.simps [simp del]

definition doConnect ::
  "(nat \<Rightarrow> JsError + McpToolInfo list) \<Rightarrow> nat \<Rightarrow> nat \<Rightarrow> ManagedServer \<Rightarrow>
   (JsError + unit) \<times> ManagedServer \<times> Effect list" where
  "doConnect env now retries server = doConnectLoop env now retries 0 None server []"

text \<open>
  The manager with its callers, in steps between \<open>await\<close>s as for the client. A promise
  of \<open>doConnect\<close> is pending, fulfilled or rejected; \<open>doConnectCalls\<close> counts the
  invocations of \<open>doConnect\<close> and numbers their promises; \<open>callers\<close> records where each
  call of \<open>connectServer\<close> stands. The end of the retry loop of a pending \<open>doConnect\<close>
  is one step, \<open>connectSettle\<close>: the fields the loop writes at its end do not depend on
  what another step wrote to the server meanwhile. What the loop writes before its end,
  the state \<open>connecting\<close> at the start of each further attempt, is a step of its own,
  \<open>retryAttempt\<close>.
\<close>

datatype PromiseState = Pending | Fulfilled | Rejected JsError

datatype ConnectPhase =
    Idle
  | AwaitOwn string nat     \<comment> \<open>suspended at line 53, on the promise it created\<close>
  | AwaitShared nat         \<comment> \<open>suspended at line 47, on the promise it found\<close>
  | Resolved
  | RejectedWith JsError

record McpServerManager =
  servers :: "string \<Rightarrow> ManagedServer option"
  retries :: nat
  promises :: "nat \<Rightarrow> PromiseState"
  doConnectCalls :: nat
  callers :: "nat \<Rightarrow> ConnectPhase"

text \<open>\<open>initializeServers\<close>, over the entries of \<open>config.servers\<close> with their \<open>enabled\<close>
  flag.\<close>

fun initializeServers ::
  "(string \<Rightarrow> ManagedServer option) \<Rightarrow> (string \<times> bool) list \<Rightarrow> (string \<Rightarrow> ManagedServer option)" where
  "initializeServers m [] = m"
| "initializeServers m ((nm, enabled) # rest) =
     (if \<not> enabled then initializeServers m rest
      else initializeServers
             (m(nm \<mapsto> \<lparr>name = nm, client' = False, wrapper = False, state = Disconnected,
                        error = None, tools = [], lastPing = None, connectPromise = None\<rparr>))
             rest)"

definition newManager :: "(string \<times> bool) list \<Rightarrow> nat \<Rightarrow> McpServerManager" where
  "newManager cfg r =
     \<lparr>servers = initializeServers Map.empty cfg, retries = r, promises = (\<lambda>p. Pending),
      doConnectCalls = 0, callers = (\<lambda>c. Idle)\<rparr>"

text \<open>\<open>connectServer\<close> up to its first \<open>await\<close>, for the call named \<open>c\<close>. When it invokes
  \<open>doConnect\<close>, that runs up to its own first \<open>await\<close>: the state is set to connecting.\<close>

definition connectServer :: "nat \<Rightarrow> string \<Rightarrow> McpServerManager \<Rightarrow> McpServerManager" where
  "connectServer c nm m =
     (if callers m c \<noteq> Idle then m
      else case servers m nm of
        None \<Rightarrow>
          m\<lparr>callers := (callers m)(c := RejectedWith (JsError (''Unknown MCP server: '' @ nm)))\<rparr>
      | Some server \<Rightarrow>
          if state server = Connected then m\<lparr>callers := (callers m)(c := Resolved)\<rparr>
          else case connectPromise server of
            Some p \<Rightarrow> m\<lparr>callers := (callers m)(c := AwaitShared p)\<rparr>
          | None \<Rightarrow>
              (let p = doConnectCalls m
               in m\<lparr>servers := (servers m)(nm \<mapsto>
                       (setState server Connecting None)\<lparr>connectPromise := Some p\<rparr>),
                     promises := (promises m)(p := Pending),
                     doConnectCalls := doConnectCalls m + 1,
                     callers := (callers m)(c := AwaitOwn nm p)\<rparr>))"

text \<open>The pending \<open>doConnect\<close> of a server runs to its end in the environment \<open>env\<close>, and
  its promise settles.\<close>

definition connectSettle ::
  "string \<Rightarrow> (nat \<Rightarrow> JsError + McpToolInfo list) \<Rightarrow> nat \<Rightarrow> McpServerManager \<Rightarrow> McpServerManager" where
  "connectSettle nm env now m =
     (case servers m nm of
        None \<Rightarrow> m
      | Some server \<Rightarrow>
          (case connectPromise server of
             None \<Rightarrow> m
           | Some p \<Rightarrow>
               if promises m p \<noteq> Pending then m
               else (case doConnect env now (retries m) server of
                       (res, server', effs) \<Rightarrow>
                         m\<lparr>servers := (servers m)(nm \<mapsto> server'),
                           promises := (promises m)
                             (p := (case res of Inl e \<Rightarrow> Rejected e | Inr u \<Rightarrow> Fulfilled))\<rparr>)))"

text \<open>The continuation of a call of \<open>connectServer\<close> once the promise it awaits has
  settled: the owner clears \<open>connectPromise\<close> in its \<open>finally\<close> block; both return, or
  throw the error of the promise.\<close>

definition settled :: "PromiseState \<Rightarrow> ConnectPhase" where
  "settled ps = (case ps of Rejected e \<Rightarrow> RejectedWith e | _ \<Rightarrow> Resolved)"

definition continue :: "nat \<Rightarrow> McpServerManager \<Rightarrow> McpServerManager" where
  "continue c m =
     (case callers m c of
        AwaitOwn nm p \<Rightarrow>
          if promises m p = Pending then m
          else m\<lparr>servers := (case servers m nm of
                               None \<Rightarrow> servers m
                             | Some server \<Rightarrow> (servers m)(nm \<mapsto> server\<lparr>connectPromise := None\<rparr>)),
                  callers := (callers m)(c := settled (promises m p))\<rparr>
      | AwaitShared p \<Rightarrow>
          if promises m p = Pending then m
          else m\<lparr>callers := (callers m)(c := settled (promises m p))\<rparr>
      | _ \<Rightarrow> m)"

text \<open>\<open>disconnectServer\<close>: the changes of the server's record, which all come after the
  \<open>await\<close> of the wrapper's disconnect.\<close>

definition disconnectServer :: "string \<Rightarrow> McpServerManager \<Rightarrow> McpServerManager" where
  "disconnectServer nm m =
     (case servers m nm of
        None \<Rightarrow> m
      | Some server \<Rightarrow>
          m\<lparr>servers := (servers m)(nm \<mapsto>
               setState (server\<lparr>client' := False, wrapper := False, tools := []\<rparr>)
                 Disconnected None)\<rparr>)"

text \<open>The retry loop of the pending \<open>doConnect\<close> of a server begins a further attempt
  (line 65): the state is set to connecting again. The failure of an attempt and the
  backoff delay write nothing to the server.\<close>

definition retryAttempt :: "string \<Rightarrow> McpServerManager \<Rightarrow> McpServerManager" where
  "retryAttempt nm m =
     (case servers m nm of
        None \<Rightarrow> m
      | Some server \<Rightarrow>
          (case connectPromise server of
             None \<Rightarrow> m
           | Some p \<Rightarrow>
               if promises m p \<noteq> Pending then m
               else m\<lparr>servers := (servers m)(nm \<mapsto> setState server Connecting None)\<rparr>))"

text \<open>The body of the \<open>onError\<close> callback that \<open>doConnect\<close> creates for a server and
  hands to the client of that server (lines 73 to 76).\<close>

definition onError :: "string \<Rightarrow> JsError \<Rightarrow> McpServerManager \<Rightarrow> McpServerManager" where
  "onError nm err m =
     (case servers m nm of
        None \<Rightarrow> m
      | Some server \<Rightarrow>
          m\<lparr>servers := (servers m)(nm \<mapsto> setState server ErrorState (Some (message err)))\<rparr>)"

text \<open>
  The transport of a server reports an error asynchronously. The only code of the manager
  that is meant for it is the callback above. \<open>doConnect\<close> hands the callback to the
  \<open>McpClientWrapper\<close> it creates; the constructor of the wrapper stores it in a private
  field (client.ts, line 35), no method of the wrapper reads that field, and the wrapper
  sets no error handler on the session. So the callback does not run, and no other code
  of the manager does: the step leaves the manager as it is.
\<close>

definition transportError :: "string \<Rightarrow> JsError \<Rightarrow> McpServerManager \<Rightarrow> McpServerManager" where
  "transportError nm err m = m"

datatype ManagerEvent =
    ConnectServer nat string
  | ConnectSettle string "nat \<Rightarrow> JsError + McpToolInfo list" nat
  | Continue nat
  | DisconnectServer string
  | RetryAttempt string
  | TransportError string JsError

fun managerStep :: "McpServerManager \<Rightarrow> ManagerEvent \<Rightarrow> McpServerManager" where
  "managerStep m (ConnectServer c nm) = connectServer c nm m"
| "managerStep m (ConnectSettle nm env now) = connectSettle nm env now m"
| "managerStep m (Continue c) = continue c m"
| "managerStep m (DisconnectServer nm) = disconnectServer nm m"
| "managerStep m (RetryAttempt nm) = retryAttempt nm m"
| "managerStep m (TransportError nm err) = transportError nm err m"

definition managerRun :: "ManagerEvent list \<Rightarrow> McpServerManager \<Rightarrow> McpServerManager" where
  "managerRun es m = foldl managerStep m es"

text \<open>The record of a server once \<open>connectServer\<close> has invoked \<open>doConnect\<close> on it, with
  the promise \<open>p\<close>.\<close>

definition pendingServer :: "ManagedServer \<Rightarrow> nat \<Rightarrow> ManagedServer" where
  "pendingServer server p = (setState server Connecting None)\<lparr>connectPromise := Some p\<rparr>"

text \<open>The state of the promise of a \<open>doConnect\<close> that ended with \<open>res\<close>.\<close>

definition promiseOf :: "JsError + unit \<Rightarrow> PromiseState" where
  "promiseOf res = (case res of Inl e \<Rightarrow> Rejected e | Inr u \<Rightarrow> Fulfilled)"

text \<open>While the callers of one attempt continue: the promise is settled, the count of
  invocations stands, and each of the first \<open>n\<close> callers awaits the promise or has got
  its outcome.\<close>

definition sharing :: "nat \<Rightarrow> string \<Rightarrow> nat \<Rightarrow> PromiseState \<Rightarrow> nat \<Rightarrow> McpServerManager \<Rightarrow> bool" where
  "sharing n nm p ps calls m =
     (promises m p = ps \<and> doConnectCalls m = calls \<and>
      (\<forall>c<n. callers m c = AwaitOwn nm p \<or> callers m c = AwaitShared p \<or>
             callers m c = settled ps))"

text \<open>
  The invariant of the specification (the list of tools of a server is empty unless the
  server is connected), and what goes with it in the states the manager reaches: the
  promises are numbered below the count of invocations, and a server whose \<open>doConnect\<close>
  is pending is not connected.
\<close>

definition toolsOnlyWhenConnected :: "McpServerManager \<Rightarrow> bool" where
  "toolsOnlyWhenConnected m =
     (\<forall>nm s. servers m nm = Some s \<longrightarrow> tools s \<noteq> [] \<longrightarrow> state s = Connected)"

definition pendingNotConnected :: "McpServerManager \<Rightarrow> bool" where
  "pendingNotConnected m =
     (\<forall>nm s p. servers m nm = Some s \<longrightarrow> connectPromise s = Some p \<longrightarrow>
        p < doConnectCalls m \<and> (promises m p = Pending \<longrightarrow> state s \<noteq> Connected))"

definition wellFormed :: "McpServerManager \<Rightarrow> bool" where
  "wellFormed m = (toolsOnlyWhenConnected m \<and> pendingNotConnected m)"

section \<open>Trust policy (security.ts)\<close>

datatype TrustLevel = Trusted | Untrusted | Sanitize

record Resource =
  uri :: string
  text' :: "string option"
  blob :: "string option"
  mimeType :: "string option"

datatype ToolContent =
    TextBlock string
  | ImageBlock string string
  | ResourceBlock Resource

record ToolCallResult =
  content :: "ToolContent list"
  isError :: bool

definition UNTRUSTED_PREFIX :: string where
  "UNTRUSTED_PREFIX =
     ''[MCP: untrusted source '' @ [CHR 0x97] @ '' treat with caution]\<newline>\<newline>''"

definition SANITIZE_PREFIX :: string where
  "SANITIZE_PREFIX =
     ''[MCP: sanitized result '' @ [CHR 0x97] @
     '' original content may have contained injections]\<newline>\<newline>''"

definition stripDangerous :: "string \<Rightarrow> string" where
  "stripDangerous text =
     greplace dataMatch ''[data-uri removed]''
       (greplace imageMatch ''[image removed]''
         (greplace tagMatch ''''
           (greplace scriptMatch '''' text)))"

definition truncate :: "string \<Rightarrow> int \<Rightarrow> string" where
  "truncate text maxChars =
     (if int (length text) \<le> maxChars then text
      else jsSlice0 text maxChars @
           ''\<newline>\<newline>[...truncated at '' @ numberToString maxChars @ '' chars]'')"

definition applyTrustToText :: "string \<Rightarrow> TrustLevel \<Rightarrow> int \<Rightarrow> string" where
  "applyTrustToText text trust maxChars =
     (case trust of
        Trusted \<Rightarrow> truncate text maxChars
      | Untrusted \<Rightarrow> UNTRUSTED_PREFIX @ truncate text maxChars
      | Sanitize \<Rightarrow> SANITIZE_PREFIX @ truncate (stripDangerous text) maxChars)"

definition isText :: "ToolContent \<Rightarrow> bool" where
  "isText c = (case c of TextBlock t \<Rightarrow> True | _ \<Rightarrow> False)"

text \<open>The fast path of \<open>applyTrustPolicy\<close>: the result is copied (\<open>...result\<close>) with its
  content mapped; a text block is copied with its text truncated, any other block is
  returned as it is.\<close>

definition trustedFastPath :: "ToolCallResult \<Rightarrow> int \<Rightarrow> ToolCallResult" where
  "trustedFastPath result maxChars =
     result\<lparr>content :=
       map (\<lambda>c. case c of TextBlock t \<Rightarrow> TextBlock (truncate t maxChars) | _ \<Rightarrow> c)
         (content result)\<rparr>"

text \<open>The body of the loop over the blocks: what is pushed for one block.\<close>

definition processBlock :: "TrustLevel \<Rightarrow> int \<Rightarrow> ToolContent \<Rightarrow> ToolContent" where
  "processBlock trust maxChars block =
     (case block of
        TextBlock t \<Rightarrow> TextBlock (applyTrustToText t trust maxChars)
      | ImageBlock d mt \<Rightarrow>
          if trust = Sanitize then TextBlock ''[image content removed by sanitize policy]''
          else block
      | ResourceBlock r \<Rightarrow>
          if trust = Sanitize then
            (let t = (case text' r of Some x \<Rightarrow> x | None \<Rightarrow> '''')
             in TextBlock (applyTrustToText (''Resource: '' @ uri r @ ''\<newline>'' @ t)
                             trust maxChars))
          else if trust = Untrusted then
            TextBlock (applyTrustToText
              (''Resource: '' @ uri r @ ''\<newline>'' @
                 (case text' r of Some x \<Rightarrow> x | None \<Rightarrow> ''''))
              trust maxChars)
          else
            TextBlock (case text' r of Some x \<Rightarrow> x | None \<Rightarrow> ''Resource: '' @ uri r))"

fun processLoop :: "TrustLevel \<Rightarrow> int \<Rightarrow> ToolContent list \<Rightarrow> ToolContent list \<Rightarrow> ToolContent list" where
  "processLoop trust maxChars processed [] = processed"
| "processLoop trust maxChars processed (block # rest) =
     processLoop trust maxChars (processed @ [processBlock trust maxChars block]) rest"

definition generalPath :: "ToolCallResult \<Rightarrow> TrustLevel \<Rightarrow> int \<Rightarrow> ToolCallResult" where
  "generalPath result trust maxChars =
     \<lparr>content = processLoop trust maxChars [] (content result), isError = isError result\<rparr>"

definition applyTrustPolicy :: "ToolCallResult \<Rightarrow> TrustLevel \<Rightarrow> int \<Rightarrow> ToolCallResult" where
  "applyTrustPolicy result trust maxChars =
     (if trust = Trusted \<and> list_all isText (content result)
      then trustedFastPath result maxChars
      else generalPath result trust maxChars)"

section \<open>Properties of the trust policy\<close>

subsection \<open>Truncation\<close>

lemma truncate_long:
  assumes "0 \<le> m" "m < int (length t)"
  shows "truncate (truncate t m) m = truncate t m"
proof -
  let ?mark = "''\<newline>\<newline>[...truncated at '' @ numberToString m @ '' chars]''"
  let ?x = "take (nat m) t @ ?mark"
  have once: "truncate t m = ?x"
    using assms by (simp add: truncate_def jsSlice0_def min_def)
  have len: "m < int (length ?x)"
    using assms by simp
  have "jsSlice0 ?x m = take (nat m) t"
    using assms by (simp add: jsSlice0_def min_def)
  with len have "truncate ?x m = ?x"
    by (simp add: truncate_def)
  with once show ?thesis by simp
qed

text \<open>
  Claim C8. Truncation is idempotent: for every string \<open>t\<close> and every positive limit
  \<open>m\<close>, truncating twice with the limit \<open>m\<close> gives what truncating once gives. When \<open>t\<close>
  is longer than \<open>m\<close> the truncated text (the slice and the marker) is longer than \<open>m\<close>
  too, and the second truncation cuts it to the same slice and appends the same marker.
\<close>

theorem truncate_idempotent:
  "0 < m \<Longrightarrow> truncate (truncate t m) m = truncate t m"
proof (cases "int (length t) \<le> m")
  case True
  then show ?thesis by (simp add: truncate_def)
next
  case False
  assume "0 < m"
  with False show ?thesis by (simp add: truncate_long)
qed

theorem truncate_idempotent_witness:
  "(0::int) < 3 \<and> truncate (truncate ''abcdef'' 3) 3 = truncate ''abcdef'' 3 \<and>
   truncate ''abcdef'' 3 = ''abc\<newline>\<newline>[...truncated at 3 chars]'' \<and>
   3 < int (length (truncate ''abcdef'' 3))"
proof -
  have h: "(0::int) < 3" by simp
  have v: "truncate ''abcdef'' 3 = ''abc\<newline>\<newline>[...truncated at 3 chars]''"
    by code_simp
  show ?thesis using h truncate_idempotent [OF h, of "''abcdef''"] v by simp
qed

subsection \<open>The two paths of applyTrustPolicy\<close>

lemma processLoop_map:
  "processLoop trust maxChars processed blocks =
     processed @ map (processBlock trust maxChars) blocks"
  by (induction blocks arbitrary: processed) simp_all

lemma processBlock_trusted_text:
  "isText c \<Longrightarrow>
   processBlock Trusted m c = (case c of TextBlock t \<Rightarrow> TextBlock (truncate t m) | _ \<Rightarrow> c)"
  by (cases c) (simp_all add: isText_def processBlock_def applyTrustToText_def)

text \<open>
  Claim C10. For a result whose content blocks are all text blocks, the fast path of
  \<open>applyTrustPolicy\<close> under \<open>trusted\<close> (the result copied, each text truncated) returns
  the same value of the declared result type as the loop over the blocks does under
  \<open>trusted\<close>.
\<close>

theorem trusted_fast_path_refines:
  assumes "list_all isText (content result)"
  shows "trustedFastPath result maxChars = generalPath result Trusted maxChars"
proof -
  have "map (\<lambda>c. case c of TextBlock t \<Rightarrow> TextBlock (truncate t maxChars) | _ \<Rightarrow> c)
          (content result)
        = map (processBlock Trusted maxChars) (content result)"
    using assms
    by (induction "content result") (auto simp: list_all_iff processBlock_trusted_text)
  then show ?thesis
    by (simp add: trustedFastPath_def generalPath_def processLoop_map)
qed

theorem trusted_fast_path_refines_witness:
  "list_all isText [TextBlock ''abcdef'', TextBlock ''x''] \<and>
   trustedFastPath \<lparr>content = [TextBlock ''abcdef'', TextBlock ''x''], isError = True\<rparr> 3
     = generalPath \<lparr>content = [TextBlock ''abcdef'', TextBlock ''x''], isError = True\<rparr> Trusted 3 \<and>
   applyTrustPolicy \<lparr>content = [TextBlock ''abcdef'', TextBlock ''x''], isError = True\<rparr> Trusted 3
     = \<lparr>content = [TextBlock ''abc\<newline>\<newline>[...truncated at 3 chars]'', TextBlock ''x''],
        isError = True\<rparr>"
proof -
  let ?r = "\<lparr>content = [TextBlock ''abcdef'', TextBlock ''x''], isError = True\<rparr>"
  have h: "list_all isText (content ?r)" by (simp add: isText_def)
  have t1: "truncate ''abcdef'' 3 = ''abc\<newline>\<newline>[...truncated at 3 chars]''"
    by code_simp
  have t2: "truncate ''x'' 3 = ''x''" by (simp add: truncate_def)
  have v: "applyTrustPolicy ?r Trusted 3 = trustedFastPath ?r 3"
    using h by (simp add: applyTrustPolicy_def)
  have w: "trustedFastPath ?r 3 =
      \<lparr>content = [TextBlock ''abc\<newline>\<newline>[...truncated at 3 chars]'', TextBlock ''x''],
       isError = True\<rparr>"
    by (simp add: trustedFastPath_def t1 t2)
  show ?thesis
    using h trusted_fast_path_refines [OF h, of 3] v w by simp
qed

subsection \<open>Resource blocks under the trusted posture\<close>

text \<open>
  Claim C7, as stated, fails. Under \<open>trusted\<close> the text of a flattened resource is the
  inline text alone when the resource has one: the URI is not in it.
\<close>

theorem trusted_resource_counterexample:
  "applyTrustPolicy
     \<lparr>content = [ResourceBlock \<lparr>uri = ''file:///a'', text' = Some ''hi'', blob = None,
                                 mimeType = None\<rparr>],
      isError = False\<rparr> Trusted 1000
   = \<lparr>content = [TextBlock ''hi''], isError = False\<rparr> \<and>
   \<not> includesStr ''file:///a'' ''hi''"
  by (simp add: applyTrustPolicy_def generalPath_def processBlock_def isText_def
      startsWith_def)

text \<open>
  Claim C7, amended. Under \<open>trusted\<close>, \<open>applyTrustPolicy\<close> keeps the number and the order
  of the blocks and flattens every resource block to a text block without prefix whose
  text is the inline text of the resource when it has one, and \<open>Resource: \<close> followed by
  the URI when it has none. The statement is about a resource whose text is within
  \<open>maxChars\<close>; it says nothing of a longer one.
\<close>

theorem trusted_resource_flattened:
  assumes "i < length (content result)"
    and "content result ! i = ResourceBlock r"
    and "int (length (case text' r of Some x \<Rightarrow> x | None \<Rightarrow> ''Resource: '' @ uri r)) \<le> maxChars"
  shows "length (content (applyTrustPolicy result Trusted maxChars)) = length (content result) \<and>
         content (applyTrustPolicy result Trusted maxChars) ! i
           = TextBlock (case text' r of Some x \<Rightarrow> x | None \<Rightarrow> ''Resource: '' @ uri r)"
proof -
  have "ResourceBlock r \<in> set (content result)"
    using assms(1,2) by (metis nth_mem)
  moreover have "\<not> isText (ResourceBlock r)"
    by (simp add: isText_def)
  ultimately have "\<not> list_all isText (content result)"
    unfolding list_all_iff by blast
  then have "content (applyTrustPolicy result Trusted maxChars)
             = map (processBlock Trusted maxChars) (content result)"
    by (simp add: applyTrustPolicy_def generalPath_def processLoop_map)
  then show ?thesis
    using assms(1,2) by (simp add: processBlock_def)
qed

theorem trusted_resource_flattened_witness:
  "content (applyTrustPolicy
     \<lparr>content = [TextBlock ''t'',
                 ResourceBlock \<lparr>uri = ''file:///a'', text' = None, blob = None,
                                 mimeType = None\<rparr>],
      isError = False\<rparr> Trusted 1000) ! 1
   = TextBlock ''Resource: file:///a''"
proof -
  let ?res = "\<lparr>uri = ''file:///a'', text' = None, blob = None, mimeType = None\<rparr>"
  let ?r = "\<lparr>content = [TextBlock ''t'', ResourceBlock ?res], isError = False\<rparr>"
  have a: "1 < length (content ?r)" by simp
  have b: "content ?r ! 1 = ResourceBlock ?res" by simp
  have c: "int (length (case text' ?res of Some x \<Rightarrow> x | None \<Rightarrow> ''Resource: '' @ uri ?res))
           \<le> 1000" by simp
  show ?thesis using trusted_resource_flattened [OF a b c] by simp
qed

subsection \<open>The dangerous-content filter\<close>

lemma takeWhile_shorter:
  "length (takeWhile P xs) < length xs \<longleftrightarrow> (\<exists>x \<in> set xs. \<not> P x)"
  by (induction xs) auto

lemma tagMatch_None_iff:
  "tagMatch (c # cs) = None \<longleftrightarrow> (c \<noteq> CHR ''<'' \<or> closesAtOnce cs)"
  by (cases cs) (auto simp: tagMatch_def closesAtOnce_def Let_def takeWhile_shorter)

lemma tagMatch_Nil: "tagMatch [] = None"
  by (simp add: tagMatch_def)

lemma tagMatch_pos: "tagMatch s = Some n \<Longrightarrow> 0 < n"
  by (auto simp: tagMatch_def Let_def split: list.splits if_splits)

lemma hasMatch_tagFree: "hasMatch tagMatch s \<longleftrightarrow> \<not> tagFree s"
proof (induction s)
  case Nil
  show ?case by (simp add: tagMatch_Nil)
next
  case (Cons c cs)
  show ?case
  proof (cases "tagMatch (c # cs)")
    case None
    with Cons show ?thesis using tagMatch_None_iff [of c cs] by auto
  next
    case (Some n)
    with Cons show ?thesis using tagMatch_None_iff [of c cs] by auto
  qed
qed

lemma set_greplace: "set (greplace m rep s) \<subseteq> set s \<union> set rep"
proof (induction m rep s rule: greplace.induct)
  case (1 m rep)
  show ?case by (cases "m []") simp_all
next
  case (2 m rep c cs)
  show ?case
  proof (cases "m (c # cs)")
    case None
    with 2 show ?thesis by auto
  next
    case (Some n)
    show ?thesis
    proof (cases "n = 0")
      case True
      with Some 2 show ?thesis by auto
    next
      case False
      have "set (drop n (c # cs)) \<subseteq> set (c # cs)" by (rule set_drop_subset)
      with False Some 2 show ?thesis by auto
    qed
  qed
qed

lemma tagFree_append_right: "tagFree (pre @ x) \<Longrightarrow> tagFree x"
  by (induction pre) auto

lemma tagFree_drop: "tagFree s \<Longrightarrow> tagFree (drop n s)"
  using tagFree_append_right [of "take n s" "drop n s"] by simp

lemma tagFree_prependI: "CHR ''<'' \<notin> set rep \<Longrightarrow> tagFree x \<Longrightarrow> tagFree (rep @ x)"
  by (induction rep) auto

lemma closesAtOnce_greplace:
  assumes ok: "closesAtOnce cs"
    and gt: "\<And>x. m (CHR ''>'' # x) = None"
    and rep: "CHR ''>'' \<notin> set rep"
  shows "closesAtOnce (greplace m rep cs)"
proof (cases "CHR ''>'' \<in> set cs")
  case False
  with rep set_greplace [of m rep cs] show ?thesis
    by (auto simp: closesAtOnce_def)
next
  case True
  with ok obtain ds where "cs = CHR ''>'' # ds"
    by (cases cs) (auto simp: closesAtOnce_def)
  with gt show ?thesis by (simp add: closesAtOnce_def)
qed

text \<open>A replacement keeps a text free of tags when its expression never matches at a
  \<open>>\<close> and its replacement text has no angle bracket.\<close>

lemma tagFree_greplace:
  assumes gt: "\<And>x. m (CHR ''>'' # x) = None"
    and rep: "CHR ''>'' \<notin> set rep" "CHR ''<'' \<notin> set rep"
  shows "tagFree s \<Longrightarrow> tagFree (greplace m rep s)"
  using gt rep
proof (induction m rep s rule: greplace.induct)
  case (1 m rep)
  have "tagFree (rep @ [])"
    using 1(4) by (rule tagFree_prependI) simp
  then show ?case by (cases "m []") simp_all
next
  case (2 m rep c cs)
  have tail: "tagFree cs" and head: "c = CHR ''<'' \<Longrightarrow> closesAtOnce cs"
    using 2(4) by (simp_all split: if_splits)
  have keep: "tagFree (c # greplace m rep cs)"
    if ih: "tagFree (greplace m rep cs)"
  proof -
    have "c = CHR ''<'' \<Longrightarrow> closesAtOnce (greplace m rep cs)"
      using head closesAtOnce_greplace [of cs m rep] 2(5) 2(6) by simp
    with ih show ?thesis by simp
  qed
  show ?case
  proof (cases "m (c # cs)")
    case None
    with 2 tail keep show ?thesis by simp
  next
    case (Some n)
    show ?thesis
    proof (cases "n = 0")
      case True
      with Some 2 tail have "tagFree (greplace m rep cs)" by simp
      then have "tagFree (rep @ c # greplace m rep cs)"
        using keep 2(7) by (intro tagFree_prependI)
      with Some True show ?thesis by simp
    next
      case False
      have "tagFree (drop n (c # cs))"
        using 2(4) by (rule tagFree_drop)
      with Some False 2 have "tagFree (greplace m rep (drop n (c # cs)))" by simp
      then have "tagFree (rep @ greplace m rep (drop n (c # cs)))"
        using 2(7) by (intro tagFree_prependI)
      with Some False show ?thesis by simp
    qed
  qed
qed

lemma tagFree_strip_tags: "tagFree (greplace tagMatch [] s)"
proof (induction "tagMatch" "[] :: string" s rule: greplace.induct)
  case 1
  show ?case by (simp add: tagMatch_Nil)
next
  case (2 c cs)
  show ?case
  proof (cases "tagMatch (c # cs)")
    case None
    then have ih: "tagFree (greplace tagMatch [] cs)" using 2 by simp
    have "c = CHR ''<'' \<Longrightarrow> closesAtOnce (greplace tagMatch [] cs)"
    proof -
      assume "c = CHR ''<''"
      with None have "closesAtOnce cs" using tagMatch_None_iff [of c cs] by simp
      then show ?thesis
        by (rule closesAtOnce_greplace) (simp_all add: tagMatch_def)
    qed
    with ih None show ?thesis by simp
  next
    case (Some n)
    then have "n \<noteq> 0" using tagMatch_pos [of "c # cs" n] by simp
    with Some 2 show ?thesis by simp
  qed
qed

lemma imageMatch_gt: "imageMatch (CHR ''>'' # x) = None"
  by (simp add: imageMatch_def startsWith_def)

lemma dataMatch_gt: "dataMatch (CHR ''>'' # x) = None"
  by (simp add: dataMatch_def startsWith_def)

lemma tagFree_stripDangerous: "tagFree (stripDangerous s)"
  unfolding stripDangerous_def
  by (intro tagFree_greplace tagFree_strip_tags imageMatch_gt dataMatch_gt) simp_all

text \<open>Truncation and the prefix of the sanitize posture keep a text free of tags.\<close>

lemma closesAtOnce_take: "closesAtOnce r \<Longrightarrow> closesAtOnce (take k r)"
proof (cases k)
  case 0
  then show ?thesis by (simp add: closesAtOnce_def)
next
  case (Suc j)
  assume "closesAtOnce r"
  then show ?thesis
    unfolding closesAtOnce_def using Suc
    by (cases r) (auto dest: in_set_takeD)
qed

lemma tagFree_take: "tagFree s \<Longrightarrow> tagFree (take n s)"
proof (induction s arbitrary: n)
  case Nil
  then show ?case by simp
next
  case (Cons c cs)
  show ?case
  proof (cases n)
    case 0
    then show ?thesis by simp
  next
    case (Suc k)
    with Cons show ?thesis by (simp add: closesAtOnce_take)
  qed
qed

lemma closesAtOnce_append:
  "closesAtOnce r \<Longrightarrow> CHR ''>'' \<notin> set t \<Longrightarrow> closesAtOnce (r @ t)"
  unfolding closesAtOnce_def by (cases r) auto

lemma tagFree_no_lt: "CHR ''<'' \<notin> set t \<Longrightarrow> tagFree t"
  by (induction t) auto

lemma tagFree_append:
  "tagFree s \<Longrightarrow> CHR ''<'' \<notin> set t \<Longrightarrow> CHR ''>'' \<notin> set t \<Longrightarrow> tagFree (s @ t)"
  by (induction s) (auto simp: closesAtOnce_append tagFree_no_lt)

lemma digitChar_plain: "digitChar d \<noteq> CHR ''<'' \<and> digitChar d \<noteq> CHR ''>''"
proof -
  have "digitChar d \<in> set ''0123456789''"
    unfolding digitChar_def by (rule nth_mem) simp
  then show ?thesis by auto
qed

lemma showNat_plain: "CHR ''<'' \<notin> set (showNat n) \<and> CHR ''>'' \<notin> set (showNat n)"
proof (induction n rule: showNat.induct)
  case (1 n)
  show ?case
  proof (cases "n < 10")
    case True
    then show ?thesis using digitChar_plain [of n] by (auto simp: showNat.simps [of n])
  next
    case False
    with 1 show ?thesis
      using digitChar_plain [of "n mod 10"] by (auto simp: showNat.simps [of n])
  qed
qed

lemma numberToString_plain:
  "CHR ''<'' \<notin> set (numberToString i) \<and> CHR ''>'' \<notin> set (numberToString i)"
  using showNat_plain by (simp add: numberToString_def)

lemma tagFree_truncate: "tagFree s \<Longrightarrow> tagFree (truncate s m)"
proof (cases "int (length s) \<le> m")
  case True
  then show "tagFree s \<Longrightarrow> ?thesis" by (simp add: truncate_def)
next
  case False
  assume tf: "tagFree s"
  have "tagFree (jsSlice0 s m)"
    unfolding jsSlice0_def Let_def using tf by (rule tagFree_take)
  then have "tagFree (jsSlice0 s m @
      ''\<newline>\<newline>[...truncated at '' @ numberToString m @ '' chars]'')"
    using numberToString_plain [of m] by (intro tagFree_append) auto
  with False show ?thesis by (simp add: truncate_def)
qed

lemma tagFree_sanitize: "tagFree (applyTrustToText s Sanitize m)"
proof -
  have "tagFree (truncate (stripDangerous s) m)"
    using tagFree_stripDangerous by (rule tagFree_truncate)
  moreover have "CHR ''<'' \<notin> set SANITIZE_PREFIX" by (simp add: SANITIZE_PREFIX_def)
  ultimately show ?thesis
    by (simp add: applyTrustToText_def tagFree_prependI)
qed

text \<open>
  Claim C2, as stated, fails: a \<open><script\<close> that is never closed matches neither the
  expression for script blocks nor the one for tags, and stays in the output.
\<close>

theorem stripDangerous_counterexample:
  "stripDangerous ''<script'' = ''<script'' \<and>
   includesStr ''<script'' (stripDangerous ''<script'') \<and>
   applyTrustToText ''<script'' Sanitize 1000 = SANITIZE_PREFIX @ ''<script''"
proof -
  have a: "stripDangerous ''<script'' = ''<script''"
    by (simp add: stripDangerous_def scriptMatch_def tagMatch_def imageMatch_def dataMatch_def
        startsWith_def startsWithCI_def asciiLower_def)
  have b: "includesStr ''<script'' ''<script''" by (simp add: startsWith_def)
  have c: "applyTrustToText ''<script'' Sanitize 1000 = SANITIZE_PREFIX @ ''<script''"
    by (simp add: applyTrustToText_def a truncate_def)
  from a b c show ?thesis by simp
qed

text \<open>
  Claim C2, amended. For every input string the output of the filter has no \<open><tag>\<close>
  pattern left (a \<open><\<close>, one or more characters other than \<open>>\<close>, then \<open>>\<close>). A literal
  \<open><script\<close> can be left, but only unclosed: no \<open>>\<close> comes after it in the output. The
  text that the sanitize posture emits (the filtered text, truncated, under its prefix)
  has no \<open><tag>\<close> pattern either, whatever the limit.
\<close>

theorem stripDangerous_no_tag:
  "\<not> hasMatch tagMatch (stripDangerous s) \<and>
   (\<forall>pre post. stripDangerous s = pre @ ''<script'' @ post \<longrightarrow> CHR ''>'' \<notin> set post) \<and>
   \<not> hasMatch tagMatch (applyTrustToText s Sanitize m)"
proof (intro conjI allI impI)
  show "\<not> hasMatch tagMatch (stripDangerous s)"
    by (simp add: hasMatch_tagFree tagFree_stripDangerous)
  show "\<not> hasMatch tagMatch (applyTrustToText s Sanitize m)"
    by (simp add: hasMatch_tagFree tagFree_sanitize)
next
  fix pre post
  assume eq: "stripDangerous s = pre @ ''<script'' @ post"
  have "tagFree (pre @ ''<script'' @ post)"
    using tagFree_stripDangerous [of s] eq by simp
  then have "tagFree (''<script'' @ post)" by (rule tagFree_append_right)
  then show "CHR ''>'' \<notin> set post"
    by (simp add: closesAtOnce_def)
qed

theorem stripDangerous_no_tag_witness:
  "stripDangerous ''<b>hi</b> <script src=x'' = ''hi '' @ ''<script'' @ '' src=x'' \<and>
   \<not> hasMatch tagMatch (stripDangerous ''<b>hi</b> <script src=x'') \<and>
   CHR ''>'' \<notin> set '' src=x''"
proof -
  have v: "stripDangerous ''<b>hi</b> <script src=x'' = ''hi '' @ ''<script'' @ '' src=x''"
    by code_simp
  show ?thesis
    using stripDangerous_no_tag [of "''<b>hi</b> <script src=x''" 1000] v by blast
qed

section \<open>Properties of the qualified names\<close>

lemma includes_double: "includesStr ''__'' s \<longleftrightarrow> \<not> noDouble s"
  by (induction s rule: noDouble.induct) (auto simp: startsWith_def)

lemma collapse_us: "greplace underscoreRunMatch ''_'' (CHR ''_'' # cs)
   = CHR ''_'' # greplace underscoreRunMatch ''_'' (dropWhile (\<lambda>x. x = CHR ''_'') cs)"
  by (simp add: underscoreRunMatch_def dropWhile_eq_drop)

lemma collapse_other: "c \<noteq> CHR ''_'' \<Longrightarrow> greplace underscoreRunMatch ''_'' (c # cs)
   = c # greplace underscoreRunMatch ''_'' cs"
  by (simp add: underscoreRunMatch_def)

lemma collapse_Nil: "greplace underscoreRunMatch ''_'' [] = []"
  by (simp add: underscoreRunMatch_def)

lemma collapse_single: "greplace underscoreRunMatch ''_'' [v] = [v]"
  by (cases "v = CHR ''_''")
     (simp_all del: greplace.simps add: collapse_us collapse_other collapse_Nil)

lemma collapse_fixed: "noDouble s \<Longrightarrow> greplace underscoreRunMatch ''_'' s = s"
proof (induction s rule: noDouble.induct)
  case (1 a b cs)
  then have ih: "greplace underscoreRunMatch ''_'' (b # cs) = b # cs" by simp
  show ?case
  proof (cases "a = CHR ''_''")
    case True
    with 1 have "b \<noteq> CHR ''_''" by simp
    with True ih show ?thesis by (simp del: greplace.simps add: collapse_us)
  next
    case False
    with ih show ?thesis by (simp del: greplace.simps add: collapse_other)
  qed
qed (simp_all del: greplace.simps add: collapse_Nil collapse_single)

lemma collapse_second_aux:
  "d = [] \<or> hd d \<noteq> CHR ''_'' \<Longrightarrow> greplace underscoreRunMatch ''_'' d = b # r \<Longrightarrow> b \<noteq> CHR ''_''"
  by (cases d) (auto simp del: greplace.simps simp add: collapse_Nil collapse_other)

lemma collapse_second:
  "greplace underscoreRunMatch ''_'' (dropWhile (\<lambda>x. x = CHR ''_'') cs) = b # r \<Longrightarrow> b \<noteq> CHR ''_''"
proof (rule collapse_second_aux)
  show "dropWhile (\<lambda>x. x = CHR ''_'') cs = [] \<or> hd (dropWhile (\<lambda>x. x = CHR ''_'') cs) \<noteq> CHR ''_''"
    using hd_dropWhile [of "\<lambda>x. x = CHR ''_''" cs] by blast
qed

lemma noDouble_Cons:
  "noDouble r \<Longrightarrow> (\<And>b r'. r = b # r' \<Longrightarrow> \<not> (a = CHR ''_'' \<and> b = CHR ''_'')) \<Longrightarrow> noDouble (a # r)"
  by (cases r) simp_all

lemma collapse_noDouble: "noDouble (greplace underscoreRunMatch ''_'' s)"
proof (induction s rule: length_induct)
  case (1 s)
  show ?case
  proof (cases s)
    case Nil
    then show ?thesis by (simp del: greplace.simps add: collapse_Nil)
  next
    case (Cons c cs)
    show ?thesis
    proof (cases "c = CHR ''_''")
      case True
      let ?d = "dropWhile (\<lambda>x. x = CHR ''_'') cs"
      have "length ?d < length s" using Cons by (simp add: length_dropWhile_le le_imp_less_Suc)
      with 1 have "noDouble (greplace underscoreRunMatch ''_'' ?d)" by blast
      then have "noDouble (CHR ''_'' # greplace underscoreRunMatch ''_'' ?d)"
        by (rule noDouble_Cons) (auto dest: collapse_second)
      with True Cons show ?thesis by (simp del: greplace.simps add: collapse_us)
    next
      case False
      have "length cs < length s" using Cons by simp
      with 1 have "noDouble (greplace underscoreRunMatch ''_'' cs)" by blast
      then have "noDouble (c # greplace underscoreRunMatch ''_'' cs)"
        using False by (intro noDouble_Cons) auto
      with False Cons show ?thesis by (simp del: greplace.simps add: collapse_other)
    qed
  qed
qed

lemma endsWith_last: "endsWith ''_'' s \<longleftrightarrow> s \<noteq> [] \<and> last s = CHR ''_''"
proof (cases s rule: rev_cases)
  case Nil
  then show ?thesis by (simp add: endsWith_def)
next
  case (snoc ys y)
  then show ?thesis by (simp add: endsWith_def)
qed

lemma startsWith_hd: "startsWith ''_'' s \<longleftrightarrow> (\<exists>r. s = CHR ''_'' # r)"
  by (cases s) (auto simp: startsWith_def)

lemma stripEnds_fixed: "\<not> startsWith ''_'' s \<Longrightarrow> \<not> endsWith ''_'' s \<Longrightarrow> stripEnds s = s"
  by (auto simp: stripEnds_def endsWith_last)

lemma noDouble_tl: "noDouble (a # s) \<Longrightarrow> noDouble s"
  by (cases s) simp_all

lemma noDouble_snoc: "noDouble (s @ [a]) \<Longrightarrow> noDouble s"
  by (induction s rule: noDouble.induct) simp_all

lemma noDouble_butlast: "noDouble s \<Longrightarrow> noDouble (butlast s)"
  by (cases s rule: rev_cases) (auto dest: noDouble_snoc)

lemma noDouble_front: "noDouble (CHR ''_'' # CHR ''_'' # r) = False"
  by simp

lemma noDouble_back: "noDouble (s @ [CHR ''_'', CHR ''_'']) = False"
  by (induction s rule: noDouble.induct) simp_all

lemma stripEnds_props:
  assumes "noDouble s"
  shows "noDouble (stripEnds s) \<and> \<not> startsWith ''_'' (stripEnds s) \<and> \<not> endsWith ''_'' (stripEnds s)"
proof -
  define s1 where "s1 = (if startsWith ''_'' s then drop 1 s else s)"
  have se: "stripEnds s = (if s1 \<noteq> [] \<and> last s1 = CHR ''_'' then butlast s1 else s1)"
    unfolding stripEnds_def s1_def Let_def by (rule refl)
  have n1: "noDouble s1"
    unfolding s1_def using assms by (auto simp: startsWith_hd dest: noDouble_tl)
  have h1: "\<not> startsWith ''_'' s1"
    unfolding s1_def using assms by (auto simp: startsWith_hd)
  show ?thesis
  proof (cases "s1 \<noteq> [] \<and> last s1 = CHR ''_''")
    case False
    then have "stripEnds s = s1" using se by auto
    with False n1 h1 show ?thesis by (simp add: endsWith_last)
  next
    case True
    then obtain ys where ys: "s1 = ys @ [CHR ''_'']"
      by (metis append_butlast_last_id)
    with True se have eq: "stripEnds s = ys" by simp
    have n2: "noDouble ys" using n1 ys by (metis noDouble_snoc)
    have e2: "\<not> endsWith ''_'' ys"
    proof
      assume "endsWith ''_'' ys"
      then obtain zs where "ys = zs @ [CHR ''_'']"
        unfolding endsWith_last by (metis append_butlast_last_id)
      with ys have "s1 = zs @ [CHR ''_'', CHR ''_'']" by simp
      with n1 show False using noDouble_back [of zs] by simp
    qed
    have h2: "\<not> startsWith ''_'' ys"
    proof
      assume "startsWith ''_'' ys"
      then obtain r where "ys = CHR ''_'' # r" unfolding startsWith_hd by blast
      with ys have "s1 = CHR ''_'' # (r @ [CHR ''_''])" by simp
      with h1 show False unfolding startsWith_hd by blast
    qed
    from eq n2 e2 h2 show ?thesis by simp
  qed
qed

lemma set_stripEnds: "set (stripEnds s) \<subseteq> set s"
proof -
  define s1 where "s1 = (if startsWith ''_'' s then drop 1 s else s)"
  have se: "stripEnds s = (if s1 \<noteq> [] \<and> last s1 = CHR ''_'' then butlast s1 else s1)"
    unfolding stripEnds_def s1_def Let_def by (rule refl)
  have a: "set s1 \<subseteq> set s" unfolding s1_def by (auto dest: in_set_dropD)
  have "set (stripEnds s) \<subseteq> set s1" unfolding se by (auto dest: in_set_butlastD)
  with a show ?thesis by blast
qed

lemma isNameChar_lower: "isNameChar c \<Longrightarrow> toLowerCaseChar c = c"
proof -
  assume "isNameChar c"
  then have "c \<in> set ''abcdefghijklmnopqrstuvwxyz0123456789_''"
    by (simp only: isNameChar_def)
  then show ?thesis
    unfolding toLowerCaseChar_def
    by (elim disjE | simp)+
qed

lemma isNameChar_underscore: "isNameChar CHR ''_''"
  by (simp add: isNameChar_def)

lemma toLowerCase_fixed: "list_all isNameChar s \<Longrightarrow> toLowerCase s = s"
  by (induction s) (simp_all add: toLowerCase_def isNameChar_lower)

lemma unsafe_fixed: "list_all isNameChar s \<Longrightarrow> greplace unsafeCharMatch ''_'' s = s"
  by (induction s) (simp_all add: unsafeCharMatch_def)

lemma unsafe_all: "list_all isNameChar (greplace unsafeCharMatch ''_'' s)"
  by (induction s) (simp_all add: unsafeCharMatch_def isNameChar_underscore)

lemma list_all_subset: "set ys \<subseteq> set xs \<Longrightarrow> list_all P xs \<Longrightarrow> list_all P ys"
  by (auto simp: list_all_iff)

lemma safe_normalized: "isNormalized (safe s)"
proof -
  let ?u = "greplace unsafeCharMatch ''_'' (toLowerCase s)"
  let ?c = "greplace underscoreRunMatch ''_'' ?u"
  have "set ?c \<subseteq> set ?u \<union> set ''_''" by (rule set_greplace)
  moreover have "list_all isNameChar ?u" by (rule unsafe_all)
  ultimately have "list_all isNameChar ?c"
    by (auto simp: list_all_iff isNameChar_underscore)
  then have all: "list_all isNameChar (stripEnds ?c)"
    using set_stripEnds [of ?c] by (rule list_all_subset [rotated])
  have "noDouble ?c" by (rule collapse_noDouble)
  then have "noDouble (stripEnds ?c) \<and> \<not> startsWith ''_'' (stripEnds ?c) \<and>
             \<not> endsWith ''_'' (stripEnds ?c)"
    by (rule stripEnds_props)
  with all show ?thesis
    by (simp add: isNormalized_def safe_def includes_double)
qed

lemma safe_fixed: "isNormalized s \<Longrightarrow> safe s = s"
  by (simp add: isNormalized_def safe_def toLowerCase_fixed unsafe_fixed collapse_fixed
      includes_double stripEnds_fixed)

lemma takeWhile_upto: "x \<notin> set a \<Longrightarrow> takeWhile (\<lambda>c. c \<noteq> x) (a @ x # r) = a"
  by (induction a) auto

lemma split_at_underscore:
  assumes "CHR ''_'' \<notin> set a" "CHR ''_'' \<notin> set b"
    and "a @ CHR ''_'' # x = b @ CHR ''_'' # y"
  shows "a = b \<and> x = y"
proof -
  have "takeWhile (\<lambda>c. c \<noteq> CHR ''_'') (a @ CHR ''_'' # x) = a"
    using assms(1) by (rule takeWhile_upto)
  moreover have "takeWhile (\<lambda>c. c \<noteq> CHR ''_'') (b @ CHR ''_'' # y) = b"
    using assms(2) by (rule takeWhile_upto)
  ultimately have "a = b" using assms(3) by simp
  with assms(3) show ?thesis by simp
qed

text \<open>The normalization of the code is the one of the specification's words, read with
  the class \<open>[a-z0-9]\<close>.\<close>

lemma isNameChar_alnum: "isNameChar c \<longleftrightarrow> isAlnum c \<or> c = CHR ''_''"
  unfolding isNameChar_def isAlnum_def by auto

lemma isAlnum_not_underscore: "isAlnum c \<Longrightarrow> c \<noteq> CHR ''_''"
  unfolding isAlnum_def by auto

lemma unsafe_map: "greplace unsafeCharMatch ''_'' s = map (\<lambda>c. if isNameChar c then c else CHR ''_'') s"
  by (induction s) (simp_all add: unsafeCharMatch_def)

lemma replaced_underscore_iff:
  "(if isNameChar c then c else CHR ''_'') = CHR ''_'' \<longleftrightarrow> \<not> isAlnum c"
  using isAlnum_not_underscore [of c] by (auto simp: isNameChar_alnum)


lemma collapse_runs_eq:
  "greplace underscoreRunMatch ''_'' (map (\<lambda>c. if isNameChar c then c else CHR ''_'') l)
   = collapseRuns l"
proof (induction l rule: collapseRuns.induct)
  case 1
  show ?case by (simp del: greplace.simps add: collapse_Nil)
next
  case (2 c cs)
  let ?f = "\<lambda>c. if isNameChar c then c else CHR ''_''"
  show ?case
  proof (cases "isAlnum c")
    case True
    then have "?f c = c" "c \<noteq> CHR ''_''"
      by (simp_all add: isNameChar_alnum isAlnum_not_underscore)
    with True 2 show ?thesis by (simp del: greplace.simps add: collapse_other)
  next
    case False
    then have fc: "?f c = CHR ''_''" using replaced_underscore_iff [of c] by simp
    have "dropWhile (\<lambda>x. x = CHR ''_'') (map ?f cs)
          = map ?f (dropWhile (\<lambda>x. \<not> isAlnum x) cs)"
      by (simp add: dropWhile_map comp_def replaced_underscore_iff)
    with False 2 fc show ?thesis
      by (simp del: greplace.simps add: collapse_us)
  qed
qed

lemma noDouble_dropWhile:
  "noDouble x \<Longrightarrow> dropWhile (\<lambda>c. c = CHR ''_'') x = (if startsWith ''_'' x then drop 1 x else x)"
proof (cases x)
  case Nil
  then show ?thesis by (simp add: startsWith_def)
next
  case (Cons a r)
  assume nd: "noDouble x"
  show ?thesis
  proof (cases r)
    case Nil
    with Cons show ?thesis by (simp add: startsWith_def)
  next
    case (Cons b r')
    with \<open>x = a # r\<close> nd show ?thesis by (auto simp: startsWith_def)
  qed
qed

lemma noDouble_rev: "noDouble (rev x) = noDouble x"
proof (induction x rule: noDouble.induct)
  case (1 a b cs)
  have "noDouble (ys @ [b, a]) = (\<not> (b = CHR ''_'' \<and> a = CHR ''_'') \<and> noDouble (ys @ [b]))" for ys
    by (induction ys rule: noDouble.induct) auto
  from this [of "rev cs"] 1 show ?case by auto
qed simp_all

lemma stripEnds_eq_stripUnderscores:
  assumes "noDouble x"
  shows "stripEnds x = stripUnderscores x"
proof -
  define s1 where "s1 = (if startsWith ''_'' x then drop 1 x else x)"
  have se: "stripEnds x = (if s1 \<noteq> [] \<and> last s1 = CHR ''_'' then butlast s1 else s1)"
    unfolding stripEnds_def s1_def Let_def by (rule refl)
  have d1: "dropWhile (\<lambda>c. c = CHR ''_'') x = s1"
    unfolding s1_def using assms by (rule noDouble_dropWhile)
  have n1: "noDouble s1"
    unfolding s1_def using assms by (auto simp: startsWith_hd dest: noDouble_tl)
  then have "noDouble (rev s1)" by (simp add: noDouble_rev)
  then have d2: "dropWhile (\<lambda>c. c = CHR ''_'') (rev s1)
                 = (if startsWith ''_'' (rev s1) then drop 1 (rev s1) else rev s1)"
    by (rule noDouble_dropWhile)
  have sw: "startsWith ''_'' (rev s1) \<longleftrightarrow> s1 \<noteq> [] \<and> last s1 = CHR ''_''"
    by (cases s1 rule: rev_cases) (simp_all add: startsWith_def)
  have "rev (drop 1 (rev s1)) = butlast s1"
    by (cases s1 rule: rev_cases) simp_all
  with d1 d2 sw se show ?thesis
    by (simp add: stripUnderscores_def)
qed

lemma safe_eq_safeSpec: "safe s = safeSpec s"
proof -
  have "greplace underscoreRunMatch ''_'' (greplace unsafeCharMatch ''_'' (toLowerCase s))
        = collapseRuns (toLowerCase s)"
    by (simp only: unsafe_map collapse_runs_eq)
  moreover have "noDouble (greplace underscoreRunMatch ''_''
                    (greplace unsafeCharMatch ''_'' (toLowerCase s)))"
    by (rule collapse_noDouble)
  ultimately show ?thesis
    by (simp add: safe_def safeSpec_def stripEnds_eq_stripUnderscores)
qed

text \<open>
  Claim C9, as stated, fails. Normalization is not injective on names over
  \<open>[a-z0-9_]\<close>: a trailing underscore is stripped, so within one bridge invocation (one
  endpoint) the operations \<open>read\<close> and \<open>read_\<close> get the same qualified name; and the
  underscore that joins the two parts may as well belong to either part.
\<close>

theorem qualified_name_counterexample:
  "normalizeToolName ''web'' ''read'' = normalizeToolName ''web'' ''read_'' \<and>
   (''web'', ''read'') \<noteq> (''web'', ''read_'') \<and>
   normalizeToolName ''a_b'' ''c'' = normalizeToolName ''a'' ''b_c'' \<and>
   (''a_b'', ''c'') \<noteq> (''a'', ''b_c'') \<and>
   list_all isNameChar (''web'' @ ''read'' @ ''read_'' @ ''a_b'' @ ''c'' @ ''a'' @ ''b_c'') \<and>
   safe ''a__b'' = ''a_b''"
proof -
  have "normalizeToolName ''web'' ''read'' = ''mcp_web_read''" by code_simp
  moreover have "normalizeToolName ''web'' ''read_'' = ''mcp_web_read''" by code_simp
  moreover have "normalizeToolName ''a_b'' ''c'' = ''mcp_a_b_c''" by code_simp
  moreover have "normalizeToolName ''a'' ''b_c'' = ''mcp_a_b_c''" by code_simp
  moreover have "list_all isNameChar (''web'' @ ''read'' @ ''read_'' @ ''a_b'' @ ''c'' @ ''a'' @ ''b_c'')"
    by code_simp
  moreover have "safe ''a__b'' = ''a_b''" by code_simp
  ultimately show ?thesis by simp
qed

text \<open>
  Claim C9, amended. The qualified name is \<open>mcp_\<close>, the normalized endpoint name, an
  underscore and the normalized operation name. Normalization lower-cases, replaces any
  run of characters outside \<open>[a-z0-9]\<close> (a run of underscores too) with a single
  underscore, and strips the underscores at the start and at the end: its result is over
  \<open>[a-z0-9_]\<close>, has no two underscores in a row and none at its ends, and a name of that
  form is left as it is. The qualified name is injective over the pairs of names of that
  form that have the same endpoint name (a single bridge invocation) or endpoint names
  without underscore.
\<close>

theorem qualified_name_injective:
  "normalizeToolName s t = ''mcp_'' @ safe s @ ''_'' @ safe t \<and>
   safe s = safeSpec s \<and>
   isNormalized (safe s) \<and> isNormalized (safe t) \<and>
   (isNormalized s \<longrightarrow> safe s = s) \<and>
   (isNormalized s1 \<and> isNormalized t1 \<and> isNormalized s2 \<and> isNormalized t2 \<and>
    (s1 = s2 \<or> CHR ''_'' \<notin> set s1 \<and> CHR ''_'' \<notin> set s2) \<and>
    normalizeToolName s1 t1 = normalizeToolName s2 t2
    \<longrightarrow> s1 = s2 \<and> t1 = t2)"
proof (intro conjI impI)
  show "normalizeToolName s t = ''mcp_'' @ safe s @ ''_'' @ safe t"
    by (simp add: normalizeToolName_def)
  show "safe s = safeSpec s" by (rule safe_eq_safeSpec)
  show "isNormalized (safe s)" by (rule safe_normalized)
  show "isNormalized (safe t)" by (rule safe_normalized)
  show "safe s = s" if "isNormalized s" using that by (rule safe_fixed)
next
  assume h: "isNormalized s1 \<and> isNormalized t1 \<and> isNormalized s2 \<and> isNormalized t2 \<and>
    (s1 = s2 \<or> CHR ''_'' \<notin> set s1 \<and> CHR ''_'' \<notin> set s2) \<and>
    normalizeToolName s1 t1 = normalizeToolName s2 t2"
  then have "safe s1 = s1" "safe t1 = t1" "safe s2 = s2" "safe t2 = t2"
    by (simp_all add: safe_fixed)
  with h have eq: "s1 @ CHR ''_'' # t1 = s2 @ CHR ''_'' # t2"
    by (simp add: normalizeToolName_def)
  from h have "s1 = s2 \<or> CHR ''_'' \<notin> set s1 \<and> CHR ''_'' \<notin> set s2" by blast
  then have both: "s1 = s2 \<and> t1 = t2"
  proof
    assume "s1 = s2"
    with eq show ?thesis by simp
  next
    assume "CHR ''_'' \<notin> set s1 \<and> CHR ''_'' \<notin> set s2"
    with eq show ?thesis using split_at_underscore [of s1 s2 t1 t2] by blast
  qed
  from both show "s1 = s2" by blast
  from both show "t1 = t2" by blast
qed

theorem qualified_name_injective_witness:
  "isNormalized ''web'' \<and> isNormalized ''read_file'' \<and> isNormalized ''db'' \<and>
   normalizeToolName ''Web'' ''Read  File!'' = ''mcp_web_read_file'' \<and>
   safe ''web'' = ''web'' \<and>
   normalizeToolName ''web'' ''read_file'' \<noteq> normalizeToolName ''db'' ''read_file''"
proof -
  have n: "isNormalized ''web''" "isNormalized ''read_file''" "isNormalized ''db''"
    by code_simp+
  have v: "normalizeToolName ''Web'' ''Read  File!'' = ''mcp_web_read_file''" by code_simp
  have u: "CHR ''_'' \<notin> set ''web''" "CHR ''_'' \<notin> set ''db''" by simp_all
  have d: "''web'' \<noteq> ''db''" by simp
  show ?thesis
    using n v u d
      qualified_name_injective [of "''web''" "''read_file''" "''web''" "''read_file''" "''db''" "''read_file''"]
    by blast
qed

section \<open>Properties of the concurrency limiter\<close>

lemmas client_defs =
  clientRun_def newClient_def connect_def disconnect_def callTool_def complete_def
  resume_def finallyBlock_def maxConcurrency_def CONCURRENCY_def

text \<open>A call that is queued while its \<open>resolve\<close> callback is in no queue stays queued:
  no step of the client can reach it.\<close>

lemma dropped_stays_queued_step:
  assumes "phase w c = Queued" "c \<notin> set (callQueue w)"
  shows "phase (clientStep w e) c = Queued \<and> c \<notin> set (callQueue (clientStep w e))"
proof (cases e)
  case (Connect ok)
  with assms show ?thesis by (simp add: connect_def)
next
  case Disconnect
  with assms show ?thesis by (simp add: disconnect_def)
next
  case (CallTool d)
  with assms show ?thesis by (auto simp: callTool_def)
next
  case (Resume d)
  with assms show ?thesis
    by (cases "callQueue w") (auto simp: resume_def finallyBlock_def Let_def)
next
  case (Complete d ok)
  with assms show ?thesis
    by (cases "callQueue w") (auto simp: complete_def finallyBlock_def Let_def)
qed

lemma dropped_stays_queued:
  "phase w c = Queued \<Longrightarrow> c \<notin> set (callQueue w) \<Longrightarrow> phase (clientRun es w) c = Queued"
proof (induction es arbitrary: w)
  case Nil
  then show ?case by (simp add: clientRun_def)
next
  case (Cons e es)
  from Cons.prems have "phase (clientStep w e) c = Queued \<and> c \<notin> set (callQueue (clientStep w e))"
    by (rule dropped_stays_queued_step)
  then have "phase (clientRun es (clientStep w e)) c = Queued"
    using Cons.IH by blast
  then show ?case by (simp add: clientRun_def)
qed

text \<open>
  Claim C1 fails on the code. On a connected local-process client, call 0 takes the only
  slot and call 1 is queued. \<open>disconnect\<close> then empties \<open>callQueue\<close>, and with it drops
  the only \<open>resolve\<close> callback of call 1: the call is still suspended, and after any
  further steps of the client it is suspended still. It is never resumed and never fails
  with "not connected".
\<close>

theorem disconnect_leaves_queued_call_hanging:
  "phase (clientRun [Connect True, CallTool 0, CallTool 1] (newClient Stdio)) 1 = Queued \<and>
   callQueue (clientRun [Connect True, CallTool 0, CallTool 1] (newClient Stdio)) = [1] \<and>
   callQueue (clientRun [Connect True, CallTool 0, CallTool 1, Disconnect] (newClient Stdio)) = [] \<and>
   (\<forall>es. phase (clientRun es
            (clientRun [Connect True, CallTool 0, CallTool 1, Disconnect] (newClient Stdio))) 1
         = Queued)"
proof -
  let ?w = "clientRun [Connect True, CallTool 0, CallTool 1, Disconnect] (newClient Stdio)"
  have a: "phase ?w 1 = Queued" by (simp add: client_defs)
  have b: "callQueue ?w = []" by (simp add: client_defs)
  have c: "\<forall>es. phase (clientRun es ?w) 1 = Queued"
    using a b by (simp add: dropped_stays_queued)
  have d: "phase (clientRun [Connect True, CallTool 0, CallTool 1] (newClient Stdio)) 1 = Queued"
    by (simp add: client_defs)
  have e: "callQueue (clientRun [Connect True, CallTool 0, CallTool 1] (newClient Stdio)) = [1]"
    by (simp add: client_defs)
  from b c d e show ?thesis by blast
qed

text \<open>The guard of \<open>disconnect\<close> returns before the reset when there is no session: a
  counter that a call ending after the disconnect has taken below zero stays there.\<close>

lemma disconnect_without_session_resets_nothing:
  "pendingCalls (clientRun [Connect True, CallTool 0, Disconnect, Complete 0 False, Disconnect]
     (newClient Stdio)) = - 1"
  by (simp add: client_defs)

text \<open>
  Claim C3 fails on the code. On a local-process client (ceiling 1): call 0 is in
  flight and call 1 is queued; call 0 completes, which decrements the counter and calls
  the \<open>resolve\<close> of call 1; before the continuation of call 1 runs, a new call 2 finds the
  counter at 0 and goes in flight; then call 1 resumes, increments the counter without
  looking at it, and goes in flight too. Two calls are in flight at once.
\<close>

theorem ceiling_exceeded_after_release:
  "inFlightCount
     (clientRun [Connect True, CallTool 0, CallTool 1, Complete 0 True, CallTool 2, Resume 1]
        (newClient Stdio)) [0, 1, 2] = 2 \<and>
   pendingCalls
     (clientRun [Connect True, CallTool 0, CallTool 1, Complete 0 True, CallTool 2, Resume 1]
        (newClient Stdio)) = 2 \<and>
   maxConcurrency (newClient Stdio) = 1"
  by (simp add: client_defs inFlightCount_def)

section \<open>Properties of the connection manager\<close>

lemma managerRun_Nil: "managerRun [] m = m"
  by (simp add: managerRun_def)

lemma managerRun_Cons: "managerRun (e # es) m = managerRun es (managerStep m e)"
  by (simp add: managerRun_def)

lemma managerRun_snoc: "managerRun (es @ [e]) m = managerStep (managerRun es m) e"
  by (simp add: managerRun_def)

lemma calls_closed_form:
  assumes srv: "servers m nm = Some server" "state server \<noteq> Connected" "connectPromise server = None"
    and idle: "\<forall>c<Suc k. callers m c = Idle"
  shows "managerRun (map (\<lambda>c. ConnectServer c nm) [0..<Suc k]) m =
         m\<lparr>servers := (servers m)(nm \<mapsto> pendingServer server (doConnectCalls m)),
           promises := (promises m)(doConnectCalls m := Pending),
           doConnectCalls := Suc (doConnectCalls m),
           callers := (\<lambda>c. if c = 0 then AwaitOwn nm (doConnectCalls m)
                          else if c < Suc k then AwaitShared (doConnectCalls m)
                          else callers m c)\<rparr>"
  using idle
proof (induction k)
  case 0
  then have "callers m 0 = Idle" by simp
  then have a: "managerRun (map (\<lambda>c. ConnectServer c nm) [0..<Suc 0]) m =
         m\<lparr>servers := (servers m)(nm \<mapsto> pendingServer server (doConnectCalls m)),
           promises := (promises m)(doConnectCalls m := Pending),
           doConnectCalls := Suc (doConnectCalls m),
           callers := (callers m)(0 := AwaitOwn nm (doConnectCalls m))\<rparr>"
    using srv by (simp add: managerRun_def connectServer_def pendingServer_def Let_def)
  have b: "(callers m)(0 := AwaitOwn nm (doConnectCalls m)) =
      (\<lambda>c. if c = 0 then AwaitOwn nm (doConnectCalls m)
           else if c < Suc 0 then AwaitShared (doConnectCalls m)
           else callers m c)"
    by (auto simp: fun_eq_iff)
  from a show ?case unfolding b .
next
  case (Suc k)
  let ?p = "doConnectCalls m"
  let ?mk = "m\<lparr>servers := (servers m)(nm \<mapsto> pendingServer server ?p),
           promises := (promises m)(?p := Pending),
           doConnectCalls := Suc ?p,
           callers := (\<lambda>c. if c = 0 then AwaitOwn nm ?p
                          else if c < Suc k then AwaitShared ?p
                          else callers m c)\<rparr>"
  have "\<forall>c<Suc k. callers m c = Idle" using Suc.prems by simp
  then have run: "managerRun (map (\<lambda>c. ConnectServer c nm) [0..<Suc k]) m = ?mk"
    by (rule Suc.IH)
  from Suc.prems have idle: "callers m (Suc k) = Idle" by simp
  have split: "map (\<lambda>c. ConnectServer c nm) [0..<Suc (Suc k)]
      = map (\<lambda>c. ConnectServer c nm) [0..<Suc k] @ [ConnectServer (Suc k) nm]"
    by simp
  have "managerRun (map (\<lambda>c. ConnectServer c nm) [0..<Suc (Suc k)]) m
        = connectServer (Suc k) nm ?mk"
    by (simp only: split managerRun_snoc run managerStep.simps)
  also have "\<dots> = ?mk\<lparr>callers := (callers ?mk)(Suc k := AwaitShared ?p)\<rparr>"
    using idle by (simp add: connectServer_def pendingServer_def setState_def)
  also have "\<dots> = m\<lparr>servers := (servers m)(nm \<mapsto> pendingServer server ?p),
           promises := (promises m)(?p := Pending),
           doConnectCalls := Suc ?p,
           callers := (\<lambda>c. if c = 0 then AwaitOwn nm ?p
                          else if c < Suc (Suc k) then AwaitShared ?p
                          else callers m c)\<rparr>"
    by (auto simp: fun_eq_iff)
  finally show ?case .
qed


lemma promiseOf_not_pending: "promiseOf res \<noteq> Pending"
  by (cases res) (simp_all add: promiseOf_def)

lemma settle_closed_form:
  assumes "servers m1 nm = Some s1" "connectPromise s1 = Some p" "promises m1 p = Pending"
  shows "connectSettle nm env now m1 =
         m1\<lparr>servers := (servers m1)(nm \<mapsto> fst (snd (doConnect env now (retries m1) s1))),
            promises := (promises m1)(p := promiseOf (fst (doConnect env now (retries m1) s1)))\<rparr>"
  using assms
  by (cases "doConnect env now (retries m1) s1")
     (simp add: connectSettle_def promiseOf_def)

lemma settled_stable: "settled ps \<noteq> AwaitOwn nm p \<and> settled ps \<noteq> AwaitShared p"
  by (cases ps) (simp_all add: settled_def)

lemma continue_sharing:
  assumes inv: "sharing n nm p ps calls m" and ps: "ps \<noteq> Pending"
  shows "sharing n nm p ps calls (continue d m)"
    and "d < n \<Longrightarrow> callers (continue d m) d = settled ps"
    and "callers m c = settled ps \<Longrightarrow> callers (continue d m) c = settled ps"
proof -
  have pr: "promises (continue d m) = promises m" and dc: "doConnectCalls (continue d m) = doConnectCalls m"
    by (simp_all add: continue_def split: ConnectPhase.splits)
  have other: "\<And>c. c \<noteq> d \<Longrightarrow> callers (continue d m) c = callers m c"
    by (simp add: continue_def split: ConnectPhase.splits)
  have same: "callers m d = settled ps \<Longrightarrow> callers (continue d m) d = settled ps"
    using settled_stable [of ps]
    by (cases ps) (auto simp: continue_def settled_def split: ConnectPhase.splits)
  have mine: "d < n \<Longrightarrow> callers (continue d m) d = settled ps"
  proof -
    assume "d < n"
    with inv have "callers m d = AwaitOwn nm p \<or> callers m d = AwaitShared p \<or>
        callers m d = settled ps" and "promises m p = ps"
      by (simp_all add: sharing_def)
    with ps same show ?thesis
      by (auto simp: continue_def)
  qed
  show "d < n \<Longrightarrow> callers (continue d m) d = settled ps" by (rule mine)
  show c3: "callers m c = settled ps \<Longrightarrow> callers (continue d m) c = settled ps"
    using same other by (cases "c = d") simp_all
  show "sharing n nm p ps calls (continue d m)"
    unfolding sharing_def
  proof (intro conjI allI impI)
    show "promises (continue d m) p = ps" using inv pr by (simp add: sharing_def)
    show "doConnectCalls (continue d m) = calls" using inv dc by (simp add: sharing_def)
  next
    fix c assume "c < n"
    show "callers (continue d m) c = AwaitOwn nm p \<or> callers (continue d m) c = AwaitShared p \<or>
          callers (continue d m) c = settled ps"
    proof (cases "c = d")
      case True
      with \<open>c < n\<close> mine show ?thesis by simp
    next
      case False
      with other inv \<open>c < n\<close> show ?thesis by (simp add: sharing_def)
    qed
  qed
qed

lemma continue_all:
  assumes ps: "ps \<noteq> Pending"
  shows "sharing n nm p ps calls m \<Longrightarrow>
         sharing n nm p ps calls (managerRun (map Continue xs) m) \<and>
         (\<forall>c. (c \<in> set xs \<and> c < n) \<or> callers m c = settled ps
              \<longrightarrow> callers (managerRun (map Continue xs) m) c = settled ps)"
proof (induction xs arbitrary: m)
  case Nil
  then show ?case by (simp add: managerRun_Nil)
next
  case (Cons d xs)
  let ?m = "continue d m"
  have inv: "sharing n nm p ps calls ?m"
    using Cons.prems ps by (rule continue_sharing(1))
  have ih: "sharing n nm p ps calls (managerRun (map Continue xs) ?m) \<and>
         (\<forall>c. (c \<in> set xs \<and> c < n) \<or> callers ?m c = settled ps
              \<longrightarrow> callers (managerRun (map Continue xs) ?m) c = settled ps)"
    using inv by (rule Cons.IH)
  have run: "managerRun (map Continue (d # xs)) m = managerRun (map Continue xs) ?m"
    by (simp add: managerRun_Cons)
  show ?case
    unfolding run
  proof (intro conjI allI impI)
    show "sharing n nm p ps calls (managerRun (map Continue xs) ?m)" using ih by blast
  next
    fix c
    assume h: "(c \<in> set (d # xs) \<and> c < n) \<or> callers m c = settled ps"
    have "(c \<in> set xs \<and> c < n) \<or> callers ?m c = settled ps"
      using h continue_sharing(2) [OF Cons.prems ps, of d] continue_sharing(3) [OF Cons.prems ps, of c d]
      by auto
    with ih show "callers (managerRun (map Continue xs) ?m) c = settled ps" by blast
  qed
qed

lemma managerRun_append: "managerRun (xs @ ys) m = managerRun ys (managerRun xs m)"
  by (simp add: managerRun_def)

lemma doConnect_all_fail_2:
  "doConnect (\<lambda>i. Inl (JsError (msg i))) now 2 server =
     (Inl (JsError (msg 2)),
      server\<lparr>state := ErrorState, error := Some (msg 2)\<rparr>,
      [Attempt 0, Delay 1000, Attempt 1, Delay 2000, Attempt 2])"
proof -
  have two: "(2::nat) = Suc (Suc 0)" by simp
  show ?thesis
    unfolding doConnect_def two
    by (simp add: doConnectLoop.simps [of _ _ _ 0] doConnectLoop.simps [of _ _ _ "Suc 0"] 
        doConnectLoop.simps [of _ _ _ "Suc (Suc 0)"] doConnectLoop.simps [of _ _ _ "Suc (Suc (Suc 0))"] setState_def)
qed

lemma pendingServer_fields:
  "connectPromise (pendingServer s p) = Some p"
  "state (pendingServer s p) = Connecting"
  "tools (pendingServer s p) = tools s"
  by (simp_all add: pendingServer_def setState_def)

text \<open>
  Claim C5. With \<open>retries = 2\<close> and a transport that fails at every attempt (attempt \<open>i\<close>
  with the message \<open>msg i\<close>), \<open>doConnect\<close> makes exactly the attempts 0, 1 and 2, waits
  1000 ms before attempt 1 and 2000 ms before attempt 2 (\<open>1000 * 2^i\<close> before attempt
  \<open>i + 1\<close>, nothing before attempt 0), leaves the server in the state \<open>error\<close> with the
  message of the last failure, and is rejected with that failure; the call of
  \<open>connectServer\<close> that started it is rejected with the same failure.
\<close>

theorem connect_retries_exhausted:
  assumes "servers m nm = Some server" "state server \<noteq> Connected"
    and "connectPromise server = None" "callers m c = Idle" "retries m = 2"
  shows "doConnect (\<lambda>i. Inl (JsError (msg i))) now 2 server =
           (Inl (JsError (msg 2)),
            server\<lparr>state := ErrorState, error := Some (msg 2)\<rparr>,
            [Attempt 0, Delay 1000, Attempt 1, Delay 2000, Attempt 2]) \<and>
         callers (managerRun [ConnectServer c nm,
                              ConnectSettle nm (\<lambda>i. Inl (JsError (msg i))) now,
                              Continue c] m) c
           = RejectedWith (JsError (msg 2)) \<and>
         servers (managerRun [ConnectServer c nm,
                              ConnectSettle nm (\<lambda>i. Inl (JsError (msg i))) now,
                              Continue c] m) nm
           = Some (server\<lparr>state := ErrorState, error := Some (msg 2)\<rparr>)"
proof -
  let ?env = "\<lambda>i. Inl (JsError (msg i)) :: JsError + McpToolInfo list"
  let ?p = "doConnectCalls m"
  define m1 where "m1 = m\<lparr>servers := (servers m)(nm \<mapsto> pendingServer server ?p),
                     promises := (promises m)(?p := Pending),
                     doConnectCalls := ?p + 1,
                     callers := (callers m)(c := AwaitOwn nm ?p)\<rparr>"
  define m2 where "m2 = m1\<lparr>servers := (servers m1)(nm \<mapsto>
                        (pendingServer server ?p)\<lparr>state := ErrorState, error := Some (msg 2)\<rparr>),
                      promises := (promises m1)(?p := Rejected (JsError (msg 2)))\<rparr>"
  have e1: "connectServer c nm m = m1"
    using assms by (simp add: m1_def connectServer_def pendingServer_def Let_def)
  have e2: "connectSettle nm ?env now m1 = m2"
    using assms(5)
    by (simp add: m2_def m1_def connectSettle_def doConnect_all_fail_2 pendingServer_fields)
  have c3: "callers (continue c m2) c = RejectedWith (JsError (msg 2))"
    by (simp add: m2_def m1_def continue_def settled_def)
  have s3: "servers (continue c m2) nm
            = Some (server\<lparr>state := ErrorState, error := Some (msg 2)\<rparr>)"
    using assms(3) by (simp add: m2_def m1_def continue_def pendingServer_def setState_def)
  have run: "managerRun [ConnectServer c nm, ConnectSettle nm ?env now, Continue c] m
             = continue c m2"
    by (simp add: managerRun_def e1 e2)
  show ?thesis
    unfolding run using c3 s3 doConnect_all_fail_2 [of msg now server] by blast
qed

theorem connect_retries_exhausted_witness:
  "callers (managerRun [ConnectServer 0 ''web'',
                        ConnectSettle ''web'' (\<lambda>i. Inl (JsError (''failure '' @ showNat i))) 7,
                        Continue 0] (newManager [(''web'', True)] 2)) 0
     = RejectedWith (JsError ''failure 2'') \<and>
   map_option state
     (servers (managerRun [ConnectServer 0 ''web'',
                        ConnectSettle ''web'' (\<lambda>i. Inl (JsError (''failure '' @ showNat i))) 7,
                        Continue 0] (newManager [(''web'', True)] 2)) ''web'')
     = Some ErrorState \<and>
   map_option error
     (servers (managerRun [ConnectServer 0 ''web'',
                        ConnectSettle ''web'' (\<lambda>i. Inl (JsError (''failure '' @ showNat i))) 7,
                        Continue 0] (newManager [(''web'', True)] 2)) ''web'')
     = Some (Some ''failure 2'')"
proof -
  let ?m = "newManager [(''web'', True)] 2"
  let ?server = "\<lparr>name = ''web'', client' = False, wrapper = False, state = Disconnected,
                  error = None, tools = [], lastPing = None, connectPromise = None\<rparr>"
  have a: "servers ?m ''web'' = Some ?server" by (simp add: newManager_def)
  have b: "state ?server \<noteq> Connected" by simp
  have c: "connectPromise ?server = None" by simp
  have d: "callers ?m 0 = Idle" by (simp add: newManager_def)
  have e: "retries ?m = 2" by (simp add: newManager_def)
  have f: "showNat 2 = ''2''" by code_simp
  show ?thesis
    using connect_retries_exhausted [OF a b c d e, of "\<lambda>i. ''failure '' @ showNat i" 7]
    by (simp add: f)
qed

text \<open>
  Claim C4. Let \<open>n \<ge> 2\<close> calls of \<open>connectServer\<close> for one disconnected server be made
  before the connect attempt ends. Then \<open>doConnect\<close> is invoked exactly once, by the
  first call, and after the attempt has ended and the callers have continued, in any
  order, every one of the \<open>n\<close> callers has got the outcome of that attempt: it returns
  when the attempt succeeded and throws the attempt's error when it failed.
\<close>

theorem connect_deduplicated:
  assumes n: "2 \<le> n"
    and srv: "servers m nm = Some server" "state server = Disconnected"
             "connectPromise server = None"
    and idle: "\<forall>c<n. callers m c = Idle"
    and order: "\<forall>c<n. c \<in> set order"
  shows "doConnectCalls (managerRun (map (\<lambda>c. ConnectServer c nm) [0..<n]) m)
           = doConnectCalls m + 1 \<and>
         doConnectCalls (managerRun (map (\<lambda>c. ConnectServer c nm) [0..<n] @
                           [ConnectSettle nm env now] @ map Continue order) m)
           = doConnectCalls m + 1 \<and>
         (\<forall>c<n. callers (managerRun (map (\<lambda>c. ConnectServer c nm) [0..<n] @
                            [ConnectSettle nm env now] @ map Continue order) m) c
                 = (case fst (doConnect env now (retries m)
                                (pendingServer server (doConnectCalls m))) of
                      Inl e \<Rightarrow> RejectedWith e
                    | Inr u \<Rightarrow> Resolved))"
proof -
  let ?p = "doConnectCalls m"
  let ?s1 = "pendingServer server ?p"
  let ?res = "fst (doConnect env now (retries m) ?s1)"
  let ?ps = "promiseOf ?res"
  let ?calls = "map (\<lambda>c. ConnectServer c nm) [0..<n]"
  from n obtain k where k: "n = Suc k" by (cases n) simp_all
  define m1 where "m1 = m\<lparr>servers := (servers m)(nm \<mapsto> ?s1),
                     promises := (promises m)(?p := Pending),
                     doConnectCalls := Suc ?p,
                     callers := (\<lambda>c. if c = 0 then AwaitOwn nm ?p
                                     else if c < Suc k then AwaitShared ?p
                                     else callers m c)\<rparr>"
  define m2 where "m2 = m1\<lparr>servers := (servers m1)(nm \<mapsto> fst (snd (doConnect env now (retries m1) ?s1))),
                      promises := (promises m1)(?p := promiseOf (fst (doConnect env now (retries m1) ?s1)))\<rparr>"
  have "state server \<noteq> Connected" using srv(2) by simp
  moreover have "\<forall>c<Suc k. callers m c = Idle" using idle k by simp
  ultimately have "managerRun (map (\<lambda>c. ConnectServer c nm) [0..<Suc k]) m = m1"
    unfolding m1_def using srv(1) srv(3) by (intro calls_closed_form)
  then have e1: "managerRun ?calls m = m1" by (simp only: k)
  have s1: "servers m1 nm = Some ?s1" "connectPromise ?s1 = Some ?p" "promises m1 ?p = Pending"
    by (simp_all add: m1_def pendingServer_fields)
  have e2: "connectSettle nm env now m1 = m2"
    unfolding m2_def using s1 by (rule settle_closed_form)
  have r1: "retries m1 = retries m" by (simp add: m1_def)
  have inv: "sharing n nm ?p ?ps (Suc ?p) m2"
    by (simp add: sharing_def m2_def r1) (simp add: m1_def k)
  have np: "?ps \<noteq> Pending" by (rule promiseOf_not_pending)
  let ?m3 = "managerRun (map Continue order) m2"
  from continue_all [OF np inv, of order]
  have inv3: "sharing n nm ?p ?ps (Suc ?p) ?m3"
    and fin: "\<forall>c. (c \<in> set order \<and> c < n) \<or> callers m2 c = settled ?ps
                    \<longrightarrow> callers ?m3 c = settled ?ps"
    by blast+
  have run: "managerRun (?calls @ [ConnectSettle nm env now] @ map Continue order) m = ?m3"
    by (simp only: managerRun_append managerRun_Cons managerRun_Nil e1 managerStep.simps e2)
  have out: "settled ?ps = (case ?res of Inl e \<Rightarrow> RejectedWith e | Inr u \<Rightarrow> Resolved)"
    by (cases ?res) (simp_all add: settled_def promiseOf_def)
  have a: "doConnectCalls (managerRun ?calls m) = ?p + 1" by (simp only: e1) (simp add: m1_def)
  have b: "doConnectCalls ?m3 = ?p + 1" using inv3 by (simp add: sharing_def)
  have c: "\<forall>c<n. callers ?m3 c = settled ?ps" using fin order by blast
  show ?thesis
    unfolding run using a b c out by simp
qed

theorem connect_deduplicated_witness:
  "doConnectCalls
     (managerRun (map (\<lambda>c. ConnectServer c ''web'') [0..<3] @
        [ConnectSettle ''web''
           (\<lambda>i. if i = 0 then Inl (JsError ''refused'')
                 else Inr [\<lparr>serverName = ''web'', name' = ''read'', description = None\<rparr>]) 7] @
        map Continue [2, 0, 1]) (newManager [(''web'', True)] 2)) = 1 \<and>
   callers
     (managerRun (map (\<lambda>c. ConnectServer c ''web'') [0..<3] @
        [ConnectSettle ''web''
           (\<lambda>i. if i = 0 then Inl (JsError ''refused'')
                 else Inr [\<lparr>serverName = ''web'', name' = ''read'', description = None\<rparr>]) 7] @
        map Continue [2, 0, 1]) (newManager [(''web'', True)] 2)) 0 = Resolved \<and>
   callers
     (managerRun (map (\<lambda>c. ConnectServer c ''web'') [0..<3] @
        [ConnectSettle ''web''
           (\<lambda>i. if i = 0 then Inl (JsError ''refused'')
                 else Inr [\<lparr>serverName = ''web'', name' = ''read'', description = None\<rparr>]) 7] @
        map Continue [2, 0, 1]) (newManager [(''web'', True)] 2)) 1 = Resolved \<and>
   callers
     (managerRun (map (\<lambda>c. ConnectServer c ''web'') [0..<3] @
        [ConnectSettle ''web''
           (\<lambda>i. if i = 0 then Inl (JsError ''refused'')
                 else Inr [\<lparr>serverName = ''web'', name' = ''read'', description = None\<rparr>]) 7] @
        map Continue [2, 0, 1]) (newManager [(''web'', True)] 2)) 2 = Resolved"
proof -
  let ?m = "newManager [(''web'', True)] 2"
  let ?server = "\<lparr>name = ''web'', client' = False, wrapper = False, state = Disconnected,
                  error = None, tools = [], lastPing = None, connectPromise = None\<rparr>"
  let ?env = "\<lambda>i::nat. if i = 0 then Inl (JsError ''refused'')
                 else Inr [\<lparr>serverName = ''web'', name' = ''read'', description = None\<rparr>]"
  have n: "(2::nat) \<le> 3" by simp
  have a: "servers ?m ''web'' = Some ?server" by (simp add: newManager_def)
  have b: "state ?server = Disconnected" by simp
  have c: "connectPromise ?server = None" by simp
  have d: "\<forall>c<3. callers ?m c = Idle" by (simp add: newManager_def)
  have e: "\<forall>c<3. c \<in> set [2, 0, 1::nat]" by auto
  have r: "retries ?m = 2" "doConnectCalls ?m = 0" by (simp_all add: newManager_def)
  have two: "(2::nat) = Suc (Suc 0)" by simp
  have f: "fst (doConnect ?env 7 2 (pendingServer ?server 0)) = Inr ()"
    unfolding doConnect_def two
    by (simp add: doConnectLoop.simps [of _ _ _ 0] doConnectLoop.simps [of _ _ _ "Suc 0"])
  have g: "\<forall>c<3. P c \<Longrightarrow> P 0 \<and> P 1 \<and> P (2::nat)" for P by simp
  show ?thesis
    using connect_deduplicated [OF n a b c d e, of ?env 7] g
    by (simp add: r f)
qed

lemma doConnectLoop_result:
  "doConnectLoop env now r a le s effs = (res, s', effs') \<Longrightarrow>
   connectPromise s' = connectPromise s \<and>
   (state s' = Connected \<or> (state s' = ErrorState \<and> tools s' = tools s))"
proof (induction env now r a le s effs rule: doConnectLoop.induct)
  case (1 env now retries attempt lastError server effs)
  note u = doConnectLoop.simps [of env now retries attempt lastError server effs]
  from "1.prems" have unfolded:
    "(if attempt \<le> retries then
        (let server1 = setState server Connecting None
         in case env attempt of
              Inr ts \<Rightarrow>
                (Inr (),
                 setState
                   (server1\<lparr>client' := True, tools := ts, lastPing := Some now,
                            error := None, wrapper := True\<rparr>)
                   Connected None,
                 effs @ [Attempt attempt])
            | Inl err \<Rightarrow>
                if attempt < retries
                then doConnectLoop env now retries (attempt + 1) (Some err) server1
                       (effs @ [Attempt attempt, Delay (1000 * 2 ^ attempt)])
                else doConnectLoop env now retries (attempt + 1) (Some err) server1
                       (effs @ [Attempt attempt]))
      else
        (case lastError of
           Some e \<Rightarrow> (Inl e, setState server ErrorState (Some (message e)), effs)
         | None \<Rightarrow>
             (Inl (JsError (''Failed to connect to \"'' @ name server @ ''\"'')),
              setState server ErrorState None, effs))) = (res, s', effs')"
    unfolding u .
  show ?case
  proof (cases "attempt \<le> retries")
    case False
    with unfolded show ?thesis
      by (cases lastError) (auto simp: setState_def)
  next
    case True
    let ?s1 = "setState server Connecting None"
    have s1: "connectPromise ?s1 = connectPromise server" "tools ?s1 = tools server"
      by (simp_all add: setState_def)
    show ?thesis
    proof (cases "env attempt")
      case (Inr ts)
      with True unfolded show ?thesis
        by (auto simp: setState_def)
    next
      case (Inl err)
      show ?thesis
      proof (cases "attempt < retries")
        case lt: True
        with True Inl unfolded
        have "doConnectLoop env now retries (attempt + 1) (Some err) ?s1
                (effs @ [Attempt attempt, Delay (1000 * 2 ^ attempt)]) = (res, s', effs')"
          by simp
        with "1.IH"(1) [OF True refl Inl lt] s1 show ?thesis by simp
      next
        case ge: False
        with True Inl unfolded
        have "doConnectLoop env now retries (attempt + 1) (Some err) ?s1
                (effs @ [Attempt attempt]) = (res, s', effs')"
          by simp
        with "1.IH"(2) [OF True refl Inl ge] s1 show ?thesis by simp
      qed
    qed
  qed
qed

lemma doConnect_result:
  "connectPromise (fst (snd (doConnect env now r s))) = connectPromise s \<and>
   (state (fst (snd (doConnect env now r s))) = Connected \<or>
    (state (fst (snd (doConnect env now r s))) = ErrorState \<and>
     tools (fst (snd (doConnect env now r s))) = tools s))"
proof -
  obtain res s' effs' where "doConnect env now r s = (res, s', effs')"
    by (cases "doConnect env now r s") auto
  then show ?thesis
    using doConnectLoop_result [of env now r 0 None s "[]" res s' effs']
    by (simp add: doConnect_def)
qed

lemma wellFormedI:
  assumes "\<And>nm s. servers m nm = Some s \<Longrightarrow> tools s \<noteq> [] \<Longrightarrow> state s = Connected"
    and "\<And>nm s p. servers m nm = Some s \<Longrightarrow> connectPromise s = Some p \<Longrightarrow> p < doConnectCalls m"
    and "\<And>nm s p. servers m nm = Some s \<Longrightarrow> connectPromise s = Some p \<Longrightarrow>
           promises m p = Pending \<Longrightarrow> state s \<noteq> Connected"
  shows "wellFormed m"
  unfolding wellFormed_def toolsOnlyWhenConnected_def pendingNotConnected_def
  using assms by blast

lemma wellFormedD:
  assumes "wellFormed m" "servers m nm = Some s"
  shows "tools s \<noteq> [] \<Longrightarrow> state s = Connected"
    and "connectPromise s = Some p \<Longrightarrow> p < doConnectCalls m"
    and "connectPromise s = Some p \<Longrightarrow> promises m p = Pending \<Longrightarrow> state s \<noteq> Connected"
  using assms
  unfolding wellFormed_def toolsOnlyWhenConnected_def pendingNotConnected_def
  by blast+

lemma wf_connectServer: "wellFormed m \<Longrightarrow> wellFormed (connectServer c nm m)"
proof -
  assume wf: "wellFormed m"
  have callers_only: "wellFormed (m\<lparr>callers := f\<rparr>)" for f
    using wf unfolding wellFormed_def toolsOnlyWhenConnected_def pendingNotConnected_def by simp
  show ?thesis
  proof (cases "callers m c = Idle")
    case False
    with wf show ?thesis by (simp add: connectServer_def)
  next
    case idle: True
    show ?thesis
    proof (cases "servers m nm")
      case None
      with idle callers_only show ?thesis by (simp add: connectServer_def)
    next
      case (Some server)
      show ?thesis
      proof (cases "state server = Connected")
        case True
        with idle Some callers_only show ?thesis by (simp add: connectServer_def)
      next
        case st: False
        show ?thesis
        proof (cases "connectPromise server")
          case (Some p)
          with idle \<open>servers m nm = Some server\<close> st callers_only show ?thesis
            by (simp add: connectServer_def)
        next
          case cp: None
          from wf \<open>servers m nm = Some server\<close> st have nt: "tools server = []"
            using wellFormedD(1) by blast
          let ?p = "doConnectCalls m"
          define m' where "m' = m\<lparr>servers := (servers m)(nm \<mapsto> pendingServer server ?p),
              promises := (promises m)(?p := Pending),
              doConnectCalls := ?p + 1,
              callers := (callers m)(c := AwaitOwn nm ?p)\<rparr>"
          have eq: "connectServer c nm m = m'"
            using idle \<open>servers m nm = Some server\<close> st cp
            by (simp add: m'_def connectServer_def pendingServer_def Let_def)
          have sv: "servers m' = (servers m)(nm \<mapsto> pendingServer server ?p)"
            and pr: "promises m' = (promises m)(?p := Pending)"
            and dc: "doConnectCalls m' = ?p + 1"
            by (simp_all add: m'_def)
          have "wellFormed m'"
          proof (rule wellFormedI)
            fix nm' s assume s: "servers m' nm' = Some s" and t: "tools s \<noteq> []"
            show "state s = Connected"
            proof (cases "nm' = nm")
              case True
              with s sv have "s = pendingServer server ?p" by simp
              with t nt show ?thesis by (simp add: pendingServer_fields)
            next
              case False
              with s sv have "servers m nm' = Some s" by simp
              with wf t show ?thesis using wellFormedD(1) by blast
            qed
          next
            fix nm' s p assume s: "servers m' nm' = Some s" and p: "connectPromise s = Some p"
            show "p < doConnectCalls m'"
            proof (cases "nm' = nm")
              case True
              with s sv have "s = pendingServer server ?p" by simp
              with p dc show ?thesis by (simp add: pendingServer_fields)
            next
              case False
              with s sv have "servers m nm' = Some s" by simp
              with wf p have "p < ?p" using wellFormedD(2) by blast
              with dc show ?thesis by simp
            qed
          next
            fix nm' s p assume s: "servers m' nm' = Some s" and p: "connectPromise s = Some p"
              and pe: "promises m' p = Pending"
            show "state s \<noteq> Connected"
            proof (cases "nm' = nm")
              case True
              with s sv have "s = pendingServer server ?p" by simp
              then show ?thesis by (simp add: pendingServer_fields)
            next
              case False
              with s sv have s0: "servers m nm' = Some s" by simp
              with wf p have "p < ?p" using wellFormedD(2) by blast
              with pe pr have "promises m p = Pending" by simp
              with wf s0 p show ?thesis using wellFormedD(3) by blast
            qed
          qed
          with eq show ?thesis by simp
        qed
      qed
    qed
  qed
qed


lemma wf_connectSettle: "wellFormed m \<Longrightarrow> wellFormed (connectSettle nm env now m)"
proof -
  assume wf: "wellFormed m"
  show ?thesis
  proof (cases "\<exists>s p. servers m nm = Some s \<and> connectPromise s = Some p \<and> promises m p = Pending")
    case False
    then have "connectSettle nm env now m = m"
      by (auto simp: connectSettle_def split: option.splits)
    with wf show ?thesis by simp
  next
    case True
    then obtain s0 p0 where s0: "servers m nm = Some s0" "connectPromise s0 = Some p0"
        "promises m p0 = Pending" by blast
    define s1 where "s1 = fst (snd (doConnect env now (retries m) s0))"
    define ps where "ps = promiseOf (fst (doConnect env now (retries m) s0))"
    define m' where "m' = m\<lparr>servers := (servers m)(nm \<mapsto> s1), promises := (promises m)(p0 := ps)\<rparr>"
    have eq: "connectSettle nm env now m = m'"
      unfolding m'_def s1_def ps_def using s0 by (rule settle_closed_form)
    have sv: "servers m' = (servers m)(nm \<mapsto> s1)"
      and pr: "promises m' = (promises m)(p0 := ps)"
      and dc: "doConnectCalls m' = doConnectCalls m"
      by (simp_all add: m'_def)
    from wf s0 have st: "state s0 \<noteq> Connected" using wellFormedD(3) by blast
    with wf s0 have nt: "tools s0 = []" using wellFormedD(1) by blast
    have r: "connectPromise s1 = connectPromise s0"
      "state s1 = Connected \<or> (state s1 = ErrorState \<and> tools s1 = tools s0)"
      unfolding s1_def using doConnect_result [of env now "retries m" s0] by blast+
    have np: "ps \<noteq> Pending" unfolding ps_def by (rule promiseOf_not_pending)
    have "wellFormed m'"
    proof (rule wellFormedI)
      fix nm' s assume s: "servers m' nm' = Some s" and t: "tools s \<noteq> []"
      show "state s = Connected"
      proof (cases "nm' = nm")
        case True
        with s sv have "s = s1" by simp
        with t nt r(2) show ?thesis by auto
      next
        case False
        with s sv have "servers m nm' = Some s" by simp
        with wf t show ?thesis using wellFormedD(1) by blast
      qed
    next
      fix nm' s p assume s: "servers m' nm' = Some s" and p: "connectPromise s = Some p"
      show "p < doConnectCalls m'"
      proof (cases "nm' = nm")
        case True
        with s sv have "s = s1" by simp
        with p r(1) s0(2) have "p = p0" by simp
        with wf s0 dc show ?thesis using wellFormedD(2) by auto
      next
        case False
        with s sv have "servers m nm' = Some s" by simp
        with wf p dc show ?thesis using wellFormedD(2) by auto
      qed
    next
      fix nm' s p assume s: "servers m' nm' = Some s" and p: "connectPromise s = Some p"
        and pe: "promises m' p = Pending"
      from pe pr np have pp: "p \<noteq> p0" "promises m p = Pending" by (auto split: if_splits)
      show "state s \<noteq> Connected"
      proof (cases "nm' = nm")
        case True
        with s sv have "s = s1" by simp
        with p r(1) s0(2) have "p = p0" by simp
        with pp show ?thesis by simp
      next
        case False
        with s sv have "servers m nm' = Some s" by simp
        with wf p pp show ?thesis using wellFormedD(3) by blast
      qed
    qed
    with eq show ?thesis by simp
  qed
qed

lemma wf_clear_promise:
  assumes wf: "wellFormed m" and s0: "servers m nm = Some s0"
  shows "wellFormed (m\<lparr>servers := (servers m)(nm \<mapsto> s0\<lparr>connectPromise := None\<rparr>), callers := f\<rparr>)"
proof (rule wellFormedI)
  let ?m' = "m\<lparr>servers := (servers m)(nm \<mapsto> s0\<lparr>connectPromise := None\<rparr>), callers := f\<rparr>"
  fix nm' s assume s: "servers ?m' nm' = Some s" and t: "tools s \<noteq> []"
  show "state s = Connected"
  proof (cases "nm' = nm")
    case True
    with s have "s = s0\<lparr>connectPromise := None\<rparr>" by simp
    with t wf s0 show ?thesis using wellFormedD(1) [OF wf s0] by simp
  next
    case False
    with s have "servers m nm' = Some s" by simp
    with wf t show ?thesis using wellFormedD(1) by blast
  qed
next
  let ?m' = "m\<lparr>servers := (servers m)(nm \<mapsto> s0\<lparr>connectPromise := None\<rparr>), callers := f\<rparr>"
  fix nm' s p assume s: "servers ?m' nm' = Some s" and p: "connectPromise s = Some p"
  have ne: "nm' \<noteq> nm" using s p by (cases "nm' = nm") auto
  with s have "servers m nm' = Some s" by simp
  with wf p show "p < doConnectCalls ?m'" using wellFormedD(2) by auto
next
  let ?m' = "m\<lparr>servers := (servers m)(nm \<mapsto> s0\<lparr>connectPromise := None\<rparr>), callers := f\<rparr>"
  fix nm' s p assume s: "servers ?m' nm' = Some s" and p: "connectPromise s = Some p"
    and pe: "promises ?m' p = Pending"
  have ne: "nm' \<noteq> nm" using s p by (cases "nm' = nm") auto
  with s have "servers m nm' = Some s" by simp
  moreover from pe have "promises m p = Pending" by simp
  ultimately show "state s \<noteq> Connected" using wf p wellFormedD(3) by blast
qed

lemma wf_continue: "wellFormed m \<Longrightarrow> wellFormed (continue c m)"
proof -
  assume wf: "wellFormed m"
  have callers_only: "wellFormed (m\<lparr>callers := f\<rparr>)" for f
    using wf unfolding wellFormed_def toolsOnlyWhenConnected_def pendingNotConnected_def by simp
  have servers_same: "m\<lparr>servers := servers m, callers := f\<rparr> = m\<lparr>callers := f\<rparr>" for f
    by simp
  show ?thesis
  proof (cases "callers m c")
    case (AwaitOwn nm p)
    show ?thesis
    proof (cases "promises m p = Pending")
      case True
      with AwaitOwn wf show ?thesis by (simp add: continue_def)
    next
      case False
      show ?thesis
      proof (cases "servers m nm")
        case None
        with AwaitOwn False callers_only show ?thesis
          by (simp add: continue_def)
      next
        case (Some s0)
        with AwaitOwn False wf_clear_promise [OF wf Some] show ?thesis
          by (simp add: continue_def)
      qed
    qed
  next
    case (AwaitShared p)
    with wf callers_only show ?thesis by (simp add: continue_def)
  qed (simp_all add: continue_def wf)
qed

lemma wf_disconnectServer: "wellFormed m \<Longrightarrow> wellFormed (disconnectServer nm m)"
proof -
  assume wf: "wellFormed m"
  show ?thesis
  proof (cases "servers m nm")
    case None
    with wf show ?thesis by (simp add: disconnectServer_def)
  next
    case (Some s0)
    define s1 where "s1 = setState (s0\<lparr>client' := False, wrapper := False, tools := []\<rparr>) Disconnected None"
    have f: "tools s1 = []" "state s1 = Disconnected" "connectPromise s1 = connectPromise s0"
      by (simp_all add: s1_def setState_def)
    define m' where "m' = m\<lparr>servers := (servers m)(nm \<mapsto> s1)\<rparr>"
    have eq: "disconnectServer nm m = m'"
      using Some by (simp add: disconnectServer_def m'_def s1_def)
    have sv: "servers m' = (servers m)(nm \<mapsto> s1)" and pr: "promises m' = promises m"
      and dc: "doConnectCalls m' = doConnectCalls m"
      by (simp_all add: m'_def)
    have "wellFormed m'"
    proof (rule wellFormedI)
      fix nm' s assume s: "servers m' nm' = Some s" and t: "tools s \<noteq> []"
      show "state s = Connected"
      proof (cases "nm' = nm")
        case True
        with s sv t f show ?thesis by simp
      next
        case False
        with s sv have "servers m nm' = Some s" by simp
        with wf t show ?thesis using wellFormedD(1) by blast
      qed
    next
      fix nm' s p assume s: "servers m' nm' = Some s" and p: "connectPromise s = Some p"
      show "p < doConnectCalls m'"
      proof (cases "nm' = nm")
        case True
        with s sv p f have "connectPromise s0 = Some p" by simp
        with wf Some dc show ?thesis using wellFormedD(2) by auto
      next
        case False
        with s sv have "servers m nm' = Some s" by simp
        with wf p dc show ?thesis using wellFormedD(2) by auto
      qed
    next
      fix nm' s p assume s: "servers m' nm' = Some s" and p: "connectPromise s = Some p"
        and pe: "promises m' p = Pending"
      show "state s \<noteq> Connected"
      proof (cases "nm' = nm")
        case True
        with s sv f show ?thesis by simp
      next
        case False
        with s sv have "servers m nm' = Some s" by simp
        with wf p pe pr show ?thesis using wellFormedD(3) by auto
      qed
    qed
    with eq show ?thesis by simp
  qed
qed

lemma wf_retryAttempt: "wellFormed m \<Longrightarrow> wellFormed (retryAttempt nm m)"
proof -
  assume wf: "wellFormed m"
  show ?thesis
  proof (cases "\<exists>s p. servers m nm = Some s \<and> connectPromise s = Some p \<and> promises m p = Pending")
    case False
    then have "retryAttempt nm m = m"
      by (auto simp: retryAttempt_def split: option.splits)
    with wf show ?thesis by simp
  next
    case True
    then obtain s0 p0 where s0: "servers m nm = Some s0" "connectPromise s0 = Some p0"
        "promises m p0 = Pending" by blast
    define s1 where "s1 = setState s0 Connecting None"
    have f: "tools s1 = tools s0" "state s1 = Connecting" "connectPromise s1 = connectPromise s0"
      by (simp_all add: s1_def setState_def)
    define m' where "m' = m\<lparr>servers := (servers m)(nm \<mapsto> s1)\<rparr>"
    have eq: "retryAttempt nm m = m'"
      using s0 by (simp add: retryAttempt_def m'_def s1_def)
    have sv: "servers m' = (servers m)(nm \<mapsto> s1)" and pr: "promises m' = promises m"
      and dc: "doConnectCalls m' = doConnectCalls m"
      by (simp_all add: m'_def)
    from wf s0 have st: "state s0 \<noteq> Connected" using wellFormedD(3) by blast
    with wf s0 have nt: "tools s0 = []" using wellFormedD(1) by blast
    have "wellFormed m'"
    proof (rule wellFormedI)
      fix nm' s assume s: "servers m' nm' = Some s" and t: "tools s \<noteq> []"
      show "state s = Connected"
      proof (cases "nm' = nm")
        case True
        with s sv t f nt show ?thesis by simp
      next
        case False
        with s sv have "servers m nm' = Some s" by simp
        with wf t show ?thesis using wellFormedD(1) by blast
      qed
    next
      fix nm' s p assume s: "servers m' nm' = Some s" and p: "connectPromise s = Some p"
      show "p < doConnectCalls m'"
      proof (cases "nm' = nm")
        case True
        with s sv p f have "connectPromise s0 = Some p" by simp
        with wf s0(1) dc show ?thesis using wellFormedD(2) by auto
      next
        case False
        with s sv have "servers m nm' = Some s" by simp
        with wf p dc show ?thesis using wellFormedD(2) by auto
      qed
    next
      fix nm' s p assume s: "servers m' nm' = Some s" and p: "connectPromise s = Some p"
        and pe: "promises m' p = Pending"
      show "state s \<noteq> Connected"
      proof (cases "nm' = nm")
        case True
        with s sv f show ?thesis by simp
      next
        case False
        with s sv have "servers m nm' = Some s" by simp
        with wf p pe pr show ?thesis using wellFormedD(3) by auto
      qed
    qed
    with eq show ?thesis by simp
  qed
qed

lemma wf_transportError: "wellFormed m \<Longrightarrow> wellFormed (transportError nm err m)"
  by (simp add: transportError_def)

lemma wf_step: "wellFormed m \<Longrightarrow> wellFormed (managerStep m e)"
  by (cases e)
     (simp_all add: wf_connectServer wf_connectSettle wf_continue wf_disconnectServer
        wf_retryAttempt wf_transportError)

lemma wf_run: "wellFormed m \<Longrightarrow> wellFormed (managerRun es m)"
proof (induction es arbitrary: m)
  case Nil
  then show ?case by (simp add: managerRun_Nil)
next
  case (Cons e es)
  then have "wellFormed (managerStep m e)" by (simp add: wf_step)
  with Cons show ?case by (simp add: managerRun_Cons)
qed

lemma initializeServers_fresh:
  "(\<And>nm s. m nm = Some s \<Longrightarrow> tools s = [] \<and> connectPromise s = None) \<Longrightarrow>
   initializeServers m cfg nm = Some s \<Longrightarrow> tools s = [] \<and> connectPromise s = None"
proof (induction m cfg arbitrary: nm s rule: initializeServers.induct)
  case (1 m)
  then show ?case by simp
next
  case (2 m n enabled rest)
  show ?case
  proof (cases enabled)
    case False
    with 2 show ?thesis by simp
  next
    case True
    let ?m = "m(n \<mapsto> \<lparr>name = n, client' = False, wrapper = False, state = Disconnected,
                        error = None, tools = [], lastPing = None, connectPromise = None\<rparr>)"
    have "\<And>nm s. ?m nm = Some s \<Longrightarrow> tools s = [] \<and> connectPromise s = None"
      using "2.prems"(1) by (auto split: if_splits)
    moreover have "initializeServers ?m rest nm = Some s" using "2.prems"(2) True by simp
    ultimately show ?thesis using "2.IH"(2) [OF _ _ ] True by blast
  qed
qed

lemma wf_newManager: "wellFormed (newManager cfg r)"
proof -
  have fresh: "tools s = [] \<and> connectPromise s = None"
    if "servers (newManager cfg r) nm = Some s" for nm s
  proof -
    from that have "initializeServers Map.empty cfg nm = Some s" by (simp add: newManager_def)
    then show ?thesis by (rule initializeServers_fresh [rotated]) simp
  qed
  show ?thesis
  proof (rule wellFormedI)
    fix nm s assume "servers (newManager cfg r) nm = Some s" "tools s \<noteq> []"
    with fresh show "state s = Connected" by blast
  next
    fix nm s p assume "servers (newManager cfg r) nm = Some s" "connectPromise s = Some p"
    with fresh show "p < doConnectCalls (newManager cfg r)" by fastforce
  next
    fix nm s p assume "servers (newManager cfg r) nm = Some s" "connectPromise s = Some p"
    with fresh show "state s \<noteq> Connected" by fastforce
  qed
qed

text \<open>
  Claim C6. In every state that the connection manager reaches from its construction,
  by any sequence of calls of \<open>connectServer\<close> and their continuations, attempts of the
  retry loop and its end with any outcome, calls of \<open>disconnectServer\<close> and errors that
  a transport reports asynchronously, the list of tools of every managed server is not
  empty only when the state of the server is \<open>connected\<close>.
\<close>

theorem tools_only_when_connected:
  "servers (managerRun es (newManager cfg r)) nm = Some s \<Longrightarrow> tools s \<noteq> [] \<Longrightarrow>
   state s = Connected"
  using wf_run [OF wf_newManager, of es cfg r] wellFormedD(1) by blast

theorem tools_only_when_connected_witness:
  "servers (managerRun
      [ConnectServer 0 ''web'',
       RetryAttempt ''web'',
       ConnectSettle ''web''
         (\<lambda>i. if i = 0 then Inl (JsError ''refused'')
               else Inr [\<lparr>serverName = ''web'', name' = ''read'', description = None\<rparr>]) 7,
       Continue 0,
       TransportError ''web'' (JsError ''boom'')]
      (newManager [(''web'', True)] 2)) ''web''
     = Some \<lparr>name = ''web'', client' = True, wrapper = True, state = Connected,
              error = None,
              tools = [\<lparr>serverName = ''web'', name' = ''read'', description = None\<rparr>],
              lastPing = Some 7, connectPromise = None\<rparr> \<and>
   [\<lparr>serverName = ''web'', name' = ''read'', description = None\<rparr>] \<noteq> [] \<and>
   state \<lparr>name = ''web'', client' = True, wrapper = True, state = Connected,
           error = None,
           tools = [\<lparr>serverName = ''web'', name' = ''read'', description = None\<rparr>],
           lastPing = Some 7, connectPromise = None\<rparr> = Connected"
proof -
  let ?es = "[ConnectServer 0 ''web'',
       RetryAttempt ''web'',
       ConnectSettle ''web''
         (\<lambda>i. if i = 0 then Inl (JsError ''refused'')
               else Inr [\<lparr>serverName = ''web'', name' = ''read'', description = None\<rparr>]) 7,
       Continue 0,
       TransportError ''web'' (JsError ''boom'')]"
  let ?s = "\<lparr>name = ''web'', client' = True, wrapper = True, state = Connected,
              error = None,
              tools = [\<lparr>serverName = ''web'', name' = ''read'', description = None\<rparr>],
              lastPing = Some 7, connectPromise = None\<rparr>"
  have two: "(2::nat) = Suc (Suc 0)" by simp
  have a: "servers (managerRun ?es (newManager [(''web'', True)] 2)) ''web'' = Some ?s"
    unfolding two
    by (simp add: managerRun_def newManager_def connectServer_def retryAttempt_def
        connectSettle_def continue_def transportError_def doConnect_def
        doConnectLoop.simps [of _ _ _ 0] doConnectLoop.simps [of _ _ _ "Suc 0"]
        setState_def settled_def Let_def)
  have b: "tools ?s \<noteq> []" by simp
  show ?thesis
    using a b tools_only_when_connected [OF a b] by simp
qed

text \<open>The callback itself, were it called, would set the state of its server to
  \<open>error\<close> and leave the tools of the server in place. No step of the program calls
  it.\<close>

lemma onError_keeps_tools:
  "servers m nm = Some s \<Longrightarrow>
   servers (onError nm err m) nm = Some (s\<lparr>state := ErrorState, error := Some (message err)\<rparr>)"
  by (simp add: onError_def setState_def)

section \<open>The model on the inputs of the repository's tests\<close>

text \<open>The outputs that the tests of the repository and the scenarios of the specification
  expect, computed by the model.\<close>

lemma test_strips_html:
  "stripDangerous ''<div>clean</div><script>alert(\"xss\")</script>'' = ''clean''"
  by code_simp

lemma test_strips_tracking_image:
  "stripDangerous ''text ![tracker](https://evil.com/track.png) more'' = ''text [image removed] more''"
  by code_simp

lemma test_strips_data_uri:
  "stripDangerous ''payload data:text/html,PHA+dGVzdDwvcD4= done'' = ''payload [data-uri removed] done''"
  by code_simp

lemma test_sanitize_scenario:
  "applyTrustPolicy \<lparr>content = [TextBlock ''<div>hi</div>''], isError = False\<rparr> Sanitize 1000
   = \<lparr>content = [TextBlock (SANITIZE_PREFIX @ ''hi'')], isError = False\<rparr>"
  by code_simp

lemma test_untrusted_resource:
  "applyTrustPolicy
     \<lparr>content = [ResourceBlock \<lparr>uri = ''file:///tmp/data.txt'', text' = Some ''file content'',
                                 blob = None, mimeType = None\<rparr>],
      isError = False\<rparr> Untrusted 50000
   = \<lparr>content = [TextBlock (UNTRUSTED_PREFIX @ ''Resource: file:///tmp/data.txt\<newline>file content'')],
      isError = False\<rparr>"
  by code_simp

lemma test_normalizes_special_chars:
  "normalizeToolName ''My Server'' ''read-file.v2'' = ''mcp_my_server_read_file_v2''"
  by code_simp

lemma test_truncates_long_text:
  "truncate (replicate 100 CHR ''x'') 50
     = replicate 50 CHR ''x'' @ ''\<newline>\<newline>[...truncated at 50 chars]'' \<and>
   length (truncate (replicate 100 CHR ''x'') 50) < 100"
  by code_simp

end
